theory Spec2Isabelle
  imports Main "HOL-Library.Word" "HOL-Library.Sublist"
begin

section \<open>ThreadPool: data model\<close>

text \<open>
  The embedding follows \<^verbatim>\<open>threadpool.h\<close>. \<^verbatim>\<open>size_t\<close> is a 64-bit unsigned
  word, so \<open>+\<close> and \<open>-\<close> wrap around. A task (\<^verbatim>\<open>std::function<void()>\<close>) is an
  opaque value of type \<open>'a\<close>.

  A \<^verbatim>\<open>std::thread\<close> object is either empty (default constructed or joined, not
  joinable) or the handle of a thread running \<^verbatim>\<open>ThreadPool::worker\<close>; for the
  latter the handle carries the program point the thread has reached.
\<close>

type_synonym size_t = "64 word"

datatype 'a wpc =
    AtWhile     \<comment> \<open>about to evaluate \<^verbatim>\<open>while (m_running)\<close>\<close>
  | AtPaused    \<comment> \<open>about to evaluate \<^verbatim>\<open>!m_paused\<close>\<close>
  | AtPop       \<comment> \<open>\<^verbatim>\<open>m_paused\<close> was read as false; about to call \<^verbatim>\<open>popTask(task)\<close>\<close>
  | AtTask 'a   \<comment> \<open>\<^verbatim>\<open>popTask\<close> returned true; \<^verbatim>\<open>task()\<close> is executing\<close>
  | AtDec       \<comment> \<open>\<^verbatim>\<open>task()\<close> returned; about to \<^verbatim>\<open>--m_tasksTotalCount\<close>\<close>
  | Exited      \<comment> \<open>\<^verbatim>\<open>m_running\<close> was read as false; the thread function returned\<close>

datatype 'a thread = NotAThread | Thread "'a wpc"

record 'a pool =
  m_tasks :: "'a list"
  m_threads :: "'a thread list"
  m_threadsCount :: size_t
  m_tasksTotalCount :: size_t
  m_running :: bool
  m_paused :: bool

datatype fault =
    Blocked      \<comment> \<open>the chosen thread cannot take a step now\<close>
  | OutOfRange   \<comment> \<open>\<^verbatim>\<open>m_threads[i]\<close> with \<open>i\<close> beyond the vector: undefined behaviour\<close>
  | Terminate    \<comment> \<open>a joinable \<^verbatim>\<open>std::thread\<close> is overwritten or destroyed: \<^verbatim>\<open>std::terminate\<close>\<close>

section \<open>Accessors and the queue\<close>

definition setPaused :: "bool \<Rightarrow> ('a, 'z) pool_scheme \<Rightarrow> ('a, 'z) pool_scheme" where
  "setPaused paused s = s\<lparr>m_paused := paused\<rparr>"

definition getTasksQueuedCount :: "('a, 'z) pool_scheme \<Rightarrow> size_t" where
  "getTasksQueuedCount s = of_nat (length (m_tasks s))"

definition getTasksTotalCount :: "('a, 'z) pool_scheme \<Rightarrow> size_t" where
  "getTasksTotalCount s = m_tasksTotalCount s"

definition getThreadsCount :: "('a, 'z) pool_scheme \<Rightarrow> size_t" where
  "getThreadsCount s = m_threadsCount s"

text \<open>
  \<^verbatim>\<open>return m_tasksTotalCount - getTasksQueuedCount();\<close> reads the atomic counter and,
  under the mutex, the queue size: two samples taken at two moments, subtracted as
  \<^verbatim>\<open>size_t\<close>. \<open>runningCount\<close> is the subtraction on the two sampled values;
  \<open>getTasksRunningCount\<close> is the call when nothing else runs between the two reads.
\<close>

definition runningCount :: "size_t \<Rightarrow> size_t \<Rightarrow> size_t" where
  "runningCount tot queued = tot - queued"

definition getTasksRunningCount :: "('a, 'z) pool_scheme \<Rightarrow> size_t" where
  "getTasksRunningCount s = runningCount (m_tasksTotalCount s) (getTasksQueuedCount s)"

text \<open>
  \<^verbatim>\<open>addTask(const F& task)\<close> is two atomic actions: the increment of the atomic
  counter, then the push under the mutex.
\<close>

definition addTask_inc :: "('a, 'z) pool_scheme \<Rightarrow> ('a, 'z) pool_scheme" where
  "addTask_inc s = s\<lparr>m_tasksTotalCount := m_tasksTotalCount s + 1\<rparr>"

definition addTask_push :: "'a \<Rightarrow> ('a, 'z) pool_scheme \<Rightarrow> ('a, 'z) pool_scheme" where
  "addTask_push task s = s\<lparr>m_tasks := m_tasks s @ [task]\<rparr>"

definition addTask :: "'a \<Rightarrow> ('a, 'z) pool_scheme \<Rightarrow> ('a, 'z) pool_scheme" where
  "addTask task s = addTask_push task (addTask_inc s)"

text \<open>
  A callable is submitted as it is, or together with bound arguments, in which case
  \<^verbatim>\<open>addTask(const F& task, T&&... args)\<close> wraps both in a closure and passes the
  closure to the one-argument overload.
\<close>

datatype ('f, 'x) callable = Plain 'f | Closure 'f "'x list"

definition addTask_args ::
  "'f \<Rightarrow> 'x list \<Rightarrow> (('f, 'x) callable, 'z) pool_scheme \<Rightarrow> (('f, 'x) callable, 'z) pool_scheme" where
  "addTask_args task args s = addTask (Closure task args) s"

text \<open>
  \<^verbatim>\<open>bool popTask(std::function<void()>& task)\<close>: the result \<open>Some t\<close> stands for
  \<^verbatim>\<open>true\<close> with \<open>t\<close> moved into \<^verbatim>\<open>task\<close>, \<open>None\<close> for \<^verbatim>\<open>false\<close>.
\<close>

definition popTask :: "('a, 'z) pool_scheme \<Rightarrow> 'a option \<times> ('a, 'z) pool_scheme" where
  "popTask s =
     (case m_tasks s of
        [] \<Rightarrow> (None, s)
      | front # rest \<Rightarrow> (Some front, s\<lparr>m_tasks := rest\<rparr>))"

section \<open>The worker loop\<close>

text \<open>
  The whole system: the pool object, the tasks for which some client thread has
  executed \<^verbatim>\<open>++m_tasksTotalCount\<close> in \<^verbatim>\<open>addTask\<close> but not yet the push
  (\<open>submitting\<close>), the tasks whose call \<^verbatim>\<open>task()\<close> has been made, in order
  (\<open>executed\<close>), and the program point of the thread that owns the pool and drives
  its lifecycle (\<open>owner\<close>).
\<close>

datatype cont =
    ToUser               \<comment> \<open>\<^verbatim>\<open>waitForTasks\<close> called by the user\<close>
  | ToReset size_t bool  \<comment> \<open>called inside \<^verbatim>\<open>reset(threadsCount)\<close>, with \<^verbatim>\<open>wasPaused\<close>\<close>
  | ToDtor               \<comment> \<open>called inside \<^verbatim>\<open>~ThreadPool\<close>\<close>

datatype opc =
    Idle                          \<comment> \<open>no lifecycle call in progress\<close>
  | Wait_paused cont              \<comment> \<open>\<^verbatim>\<open>waitForTasks\<close>: about to evaluate \<^verbatim>\<open>!m_paused\<close>\<close>
  | Wait_total cont               \<comment> \<open>about to evaluate \<^verbatim>\<open>m_tasksTotalCount == 0\<close>\<close>
  | Wait_running cont             \<comment> \<open>in \<^verbatim>\<open>getTasksRunningCount()\<close>, nothing read yet\<close>
  | Wait_queued cont size_t       \<comment> \<open>counter sampled; about to call \<^verbatim>\<open>getTasksQueuedCount()\<close>\<close>
  | Wait_counter cont size_t      \<comment> \<open>queue size sampled; about to read the counter\<close>
  | Reset_wasPaused size_t        \<comment> \<open>\<^verbatim>\<open>reset\<close>: about to read \<^verbatim>\<open>m_paused\<close> into \<^verbatim>\<open>wasPaused\<close>\<close>
  | Reset_pause size_t bool       \<comment> \<open>about to \<^verbatim>\<open>m_paused = true\<close>\<close>
  | Reset_stop size_t bool        \<comment> \<open>about to \<^verbatim>\<open>m_running = false\<close>\<close>
  | Reset_join size_t size_t bool \<comment> \<open>\<^verbatim>\<open>joinThreads\<close> at index \<open>i\<close>\<close>
  | Reset_count size_t bool       \<comment> \<open>about to assign \<^verbatim>\<open>m_threadsCount\<close>\<close>
  | Reset_vector size_t bool      \<comment> \<open>about to assign \<^verbatim>\<open>m_threads\<close>\<close>
  | Reset_unpause size_t bool     \<comment> \<open>about to \<^verbatim>\<open>m_paused = false\<close>\<close>
  | Reset_start size_t bool       \<comment> \<open>about to \<^verbatim>\<open>m_running = true\<close>\<close>
  | Create size_t                 \<comment> \<open>\<^verbatim>\<open>createThreads\<close> at index \<open>i\<close>\<close>
  | Dtor_stop                     \<comment> \<open>\<^verbatim>\<open>~ThreadPool\<close>: about to \<^verbatim>\<open>m_running = false\<close>\<close>
  | Dtor_join size_t              \<comment> \<open>\<^verbatim>\<open>joinThreads\<close> at index \<open>i\<close>\<close>
  | Destroyed

record 'a system = "'a pool" +
  submitting :: "'a list"
  executed :: "'a list"
  owner :: opc

definition set_thread :: "nat \<Rightarrow> 'a thread \<Rightarrow> ('a, 'z) pool_scheme \<Rightarrow> ('a, 'z) pool_scheme" where
  "set_thread i t s = s\<lparr>m_threads := (m_threads s)[i := t]\<rparr>"

text \<open>
  One atomic action of \<^verbatim>\<open>ThreadPool::worker\<close> from each program point: the next
  program point and the new state. Every access to shared state (an atomic load, the
  critical section of \<^verbatim>\<open>popTask\<close>, the atomic decrement) is one action; other
  threads may run between any two of them. \<^verbatim>\<open>!m_paused && popTask(task)\<close>
  short-circuits: \<^verbatim>\<open>popTask\<close> is called only after \<^verbatim>\<open>m_paused\<close> was read as
  false. The \<^verbatim>\<open>else\<close> branch yields and starts the next iteration.
\<close>

fun worker :: "'a wpc \<Rightarrow> 'a system \<Rightarrow> ('a wpc \<times> 'a system) option" where
  "worker AtWhile s = Some (if m_running s then AtPaused else Exited, s)"
| "worker AtPaused s = Some (if \<not> m_paused s then AtPop else AtWhile, s)"
| "worker AtPop s =
     (case popTask s of
        (Some task, s') \<Rightarrow> Some (AtTask task, s')
      | (None, s') \<Rightarrow> Some (AtWhile, s'))"
| "worker (AtTask task) s = Some (AtDec, s\<lparr>executed := executed s @ [task]\<rparr>)"
| "worker AtDec s = Some (AtWhile, s\<lparr>m_tasksTotalCount := m_tasksTotalCount s - 1\<rparr>)"
| "worker Exited s = None"

definition worker_step :: "nat \<Rightarrow> 'a system \<Rightarrow> fault + 'a system" where
  "worker_step i s =
     (if i < length (m_threads s) then
        (case m_threads s ! i of
           NotAThread \<Rightarrow> Inl Blocked
         | Thread pc \<Rightarrow>
             (case worker pc s of
                None \<Rightarrow> Inl Blocked
              | Some (pc', s') \<Rightarrow> Inr (set_thread i (Thread pc') s')))
      else Inl Blocked)"

section \<open>Lifecycle: construction, waitForTasks, reset, destruction\<close>

text \<open>
  \<^verbatim>\<open>std::thread::hardware_concurrency()\<close> is the parameter \<open>hc\<close>. The constructor
  initialises \<^verbatim>\<open>m_threadsCount\<close> and the size of \<^verbatim>\<open>m_threads\<close> with the same
  expression and then runs \<^verbatim>\<open>createThreads\<close>.
\<close>

definition ThreadPool :: "size_t \<Rightarrow> size_t \<Rightarrow> 'a system" where
  "ThreadPool hc threadsCount =
     \<lparr>m_tasks = [],
      m_threads = replicate (unat (if threadsCount \<noteq> 0 then threadsCount else hc)) NotAThread,
      m_threadsCount = (if threadsCount \<noteq> 0 then threadsCount else hc),
      m_tasksTotalCount = 0,
      m_running = True,
      m_paused = False,
      submitting = [],
      executed = [],
      owner = Create 0\<rparr>"

text \<open>
  One iteration of the loop of \<^verbatim>\<open>createThreads\<close> at index \<open>i\<close>: \<open>Inr None\<close> when
  the loop condition fails, otherwise the state after
  \<^verbatim>\<open>m_threads[i] = std::thread(&ThreadPool::worker, this)\<close>.
\<close>

definition createThreads_iter ::
  "size_t \<Rightarrow> ('a, 'z) pool_scheme \<Rightarrow> fault + ('a, 'z) pool_scheme option" where
  "createThreads_iter i s =
     (if i < m_threadsCount s then
        (if unat i < length (m_threads s) then
           (case m_threads s ! unat i of
              NotAThread \<Rightarrow> Inr (Some (set_thread (unat i) (Thread AtWhile) s))
            | Thread pc \<Rightarrow> Inl Terminate)
         else Inl OutOfRange)
      else Inr None)"

text \<open>
  One iteration of the loop of \<^verbatim>\<open>joinThreads\<close>: \<^verbatim>\<open>join()\<close> returns once the thread
  function has returned, and leaves the handle empty.
\<close>

definition joinThreads_iter ::
  "size_t \<Rightarrow> ('a, 'z) pool_scheme \<Rightarrow> fault + ('a, 'z) pool_scheme option" where
  "joinThreads_iter i s =
     (if i < m_threadsCount s then
        (if unat i < length (m_threads s) then
           (case m_threads s ! unat i of
              NotAThread \<Rightarrow> Inr (Some s)
            | Thread pc \<Rightarrow>
                (case pc of
                   Exited \<Rightarrow> Inr (Some (set_thread (unat i) NotAThread s))
                 | _ \<Rightarrow> Inl Blocked))
         else Inl OutOfRange)
      else Inr None)"

text \<open>
  The three assignments of \<^verbatim>\<open>reset\<close> that rebuild the members. Assigning a new
  vector destroys the old \<^verbatim>\<open>std::thread\<close> objects, which must not be joinable.
\<close>

definition reset_count :: "size_t \<Rightarrow> size_t \<Rightarrow> ('a, 'z) pool_scheme \<Rightarrow> ('a, 'z) pool_scheme" where
  "reset_count hc threadsCount s =
     s\<lparr>m_threadsCount := (if threadsCount \<noteq> 0 then threadsCount else hc)\<rparr>"

definition reset_vector :: "size_t \<Rightarrow> ('a, 'z) pool_scheme \<Rightarrow> fault + ('a, 'z) pool_scheme" where
  "reset_vector threadsCount s =
     (if list_all (\<lambda>t. t = NotAThread) (m_threads s)
      then Inr (s\<lparr>m_threads := replicate (unat threadsCount) NotAThread\<rparr>)
      else Inl Terminate)"

definition after_wait :: "cont \<Rightarrow> opc" where
  "after_wait k =
     (case k of
        ToUser \<Rightarrow> Idle
      | ToReset threadsCount wasPaused \<Rightarrow> Reset_stop threadsCount wasPaused
      | ToDtor \<Rightarrow> Dtor_stop)"

text \<open>
  One atomic action of the owner inside \<^verbatim>\<open>waitForTasks\<close>, \<^verbatim>\<open>reset\<close>,
  \<^verbatim>\<open>createThreads\<close> or the destructor. A failed test in \<^verbatim>\<open>waitForTasks\<close> yields
  and polls again. In \<^verbatim>\<open>getTasksRunningCount\<close> the counter is read first here; the
  other order of the two operands is the action \<open>owner_step_queued_first\<close>.
\<close>

definition owner_step :: "size_t \<Rightarrow> 'a system \<Rightarrow> fault + 'a system" where
  "owner_step hc s =
     (case owner s of
        Idle \<Rightarrow> Inl Blocked
      | Wait_paused k \<Rightarrow>
          Inr (s\<lparr>owner := (if \<not> m_paused s then Wait_total k else Wait_running k)\<rparr>)
      | Wait_total k \<Rightarrow>
          Inr (s\<lparr>owner := (if m_tasksTotalCount s = 0 then after_wait k else Wait_paused k)\<rparr>)
      | Wait_running k \<Rightarrow>
          Inr (s\<lparr>owner := Wait_queued k (m_tasksTotalCount s)\<rparr>)
      | Wait_queued k tot \<Rightarrow>
          Inr (s\<lparr>owner := (if runningCount tot (getTasksQueuedCount s) = 0
                            then after_wait k else Wait_paused k)\<rparr>)
      | Wait_counter k queued \<Rightarrow>
          Inr (s\<lparr>owner := (if runningCount (m_tasksTotalCount s) queued = 0
                            then after_wait k else Wait_paused k)\<rparr>)
      | Reset_wasPaused n \<Rightarrow> Inr (s\<lparr>owner := Reset_pause n (m_paused s)\<rparr>)
      | Reset_pause n wasPaused \<Rightarrow>
          Inr (s\<lparr>m_paused := True, owner := Wait_paused (ToReset n wasPaused)\<rparr>)
      | Reset_stop n wasPaused \<Rightarrow>
          Inr (s\<lparr>m_running := False, owner := Reset_join 0 n wasPaused\<rparr>)
      | Reset_join i n wasPaused \<Rightarrow>
          (case joinThreads_iter i s of
             Inl f \<Rightarrow> Inl f
           | Inr None \<Rightarrow> Inr (s\<lparr>owner := Reset_count n wasPaused\<rparr>)
           | Inr (Some s') \<Rightarrow> Inr (s'\<lparr>owner := Reset_join (i + 1) n wasPaused\<rparr>))
      | Reset_count n wasPaused \<Rightarrow>
          Inr ((reset_count hc n s)\<lparr>owner := Reset_vector n wasPaused\<rparr>)
      | Reset_vector n wasPaused \<Rightarrow>
          (case reset_vector n s of
             Inl f \<Rightarrow> Inl f
           | Inr s' \<Rightarrow> Inr (s'\<lparr>owner := Reset_unpause n wasPaused\<rparr>))
      | Reset_unpause n wasPaused \<Rightarrow>
          Inr (s\<lparr>m_paused := False, owner := Reset_start n wasPaused\<rparr>)
      | Reset_start n wasPaused \<Rightarrow>
          Inr (s\<lparr>m_running := True, owner := Create 0\<rparr>)
      | Create i \<Rightarrow>
          (case createThreads_iter i s of
             Inl f \<Rightarrow> Inl f
           | Inr None \<Rightarrow> Inr (s\<lparr>owner := Idle\<rparr>)
           | Inr (Some s') \<Rightarrow> Inr (s'\<lparr>owner := Create (i + 1)\<rparr>))
      | Dtor_stop \<Rightarrow> Inr (s\<lparr>m_running := False, owner := Dtor_join 0\<rparr>)
      | Dtor_join i \<Rightarrow>
          (case joinThreads_iter i s of
             Inl f \<Rightarrow> Inl f
           | Inr None \<Rightarrow> Inr (s\<lparr>owner := Destroyed\<rparr>)
           | Inr (Some s') \<Rightarrow> Inr (s'\<lparr>owner := Dtor_join (i + 1)\<rparr>))
      | Destroyed \<Rightarrow> Inl Blocked)"

definition owner_step_queued_first :: "'a system \<Rightarrow> fault + 'a system" where
  "owner_step_queued_first s =
     (case owner s of
        Wait_running k \<Rightarrow> Inr (s\<lparr>owner := Wait_counter k (getTasksQueuedCount s)\<rparr>)
      | _ \<Rightarrow> Inl Blocked)"

text \<open>The public lifecycle calls, which the owner makes when no other is in progress.\<close>

datatype call = SetPaused bool | WaitForTasks | Reset size_t | Destroy

definition call_step :: "call \<Rightarrow> 'a system \<Rightarrow> fault + 'a system" where
  "call_step c s =
     (case owner s of
        Idle \<Rightarrow>
          (case c of
             SetPaused paused \<Rightarrow> Inr (setPaused paused s)
           | WaitForTasks \<Rightarrow> Inr (s\<lparr>owner := Wait_paused ToUser\<rparr>)
           | Reset threadsCount \<Rightarrow> Inr (s\<lparr>owner := Reset_wasPaused threadsCount\<rparr>)
           | Destroy \<Rightarrow> Inr (s\<lparr>owner := Wait_paused ToDtor\<rparr>))
      | _ \<Rightarrow> Inl Blocked)"

section \<open>Interleaved executions\<close>

text \<open>
  An execution is a list of actions, each the next atomic action of one thread: a
  worker, a client in \<^verbatim>\<open>addTask\<close> (any thread, at any time), or the owner. The
  atomics are used with the default, sequentially consistent order and the queue only
  under the mutex, so the behaviours of the pool are the interleavings of these
  actions. \<^verbatim>\<open>setPaused\<close>, \<^verbatim>\<open>waitForTasks\<close>, \<^verbatim>\<open>reset\<close> and the destructor are
  called by one thread, the owner, one call at a time, as \<^verbatim>\<open>unit_tests.cpp\<close> does.
  A task is opaque: executing it is one action, recorded in \<open>executed\<close>.
\<close>

datatype 'a action =
    Worker nat          \<comment> \<open>the thread of \<^verbatim>\<open>m_threads[i]\<close>\<close>
  | Submit_inc 'a       \<comment> \<open>a client enters \<^verbatim>\<open>addTask(task)\<close>: \<^verbatim>\<open>++m_tasksTotalCount\<close>\<close>
  | Submit_push 'a      \<comment> \<open>that client pushes the task under the mutex\<close>
  | Owner               \<comment> \<open>the owner's next action\<close>
  | Owner_queued_first  \<comment> \<open>the owner samples the queue size before the counter\<close>
  | Call call           \<comment> \<open>the owner begins a lifecycle call\<close>

definition step :: "size_t \<Rightarrow> 'a action \<Rightarrow> 'a system \<Rightarrow> fault + 'a system" where
  "step hc a s =
     (case a of
        Worker i \<Rightarrow> worker_step i s
      | Submit_inc task \<Rightarrow> Inr ((addTask_inc s)\<lparr>submitting := task # submitting s\<rparr>)
      | Submit_push task \<Rightarrow>
          (if task \<in> set (submitting s)
           then Inr ((addTask_push task s)\<lparr>submitting := remove1 task (submitting s)\<rparr>)
           else Inl Blocked)
      | Owner \<Rightarrow> owner_step hc s
      | Owner_queued_first \<Rightarrow> owner_step_queued_first s
      | Call c \<Rightarrow> call_step c s)"

fun run :: "size_t \<Rightarrow> 'a action list \<Rightarrow> 'a system \<Rightarrow> fault + 'a system" where
  "run hc [] s = Inr s"
| "run hc (a # as) s = (case step hc a s of Inl f \<Rightarrow> Inl f | Inr s' \<Rightarrow> run hc as s')"

section \<open>Accounting\<close>

text \<open>
  A thread is busy from the moment \<^verbatim>\<open>popTask\<close> handed it a task until it has
  decremented the counter. \<open>accounted\<close> says that the counter is the number of tasks
  queued, plus those held by busy workers, plus those of submissions between their
  increment and their push (all as \<^verbatim>\<open>size_t\<close>).
\<close>

fun busy :: "'a thread \<Rightarrow> bool" where
  "busy (Thread (AtTask task)) = True"
| "busy (Thread AtDec) = True"
| "busy t = False"

definition inflight :: "'a thread list \<Rightarrow> nat" where
  "inflight ts = length (filter busy ts)"

definition accounted :: "'a system \<Rightarrow> bool" where
  "accounted s \<longleftrightarrow>
     m_tasksTotalCount s =
       of_nat (length (m_tasks s) + inflight (m_threads s) + length (submitting s))"

section \<open>Program points of the owner\<close>

text \<open>
  \<open>wait_cont\<close> tells whether the owner is inside \<^verbatim>\<open>waitForTasks\<close> (and on whose
  behalf); \<open>branch_taken\<close> is the value of \<^verbatim>\<open>m_paused\<close> that the current poll has
  read, once it has chosen a branch. Only the owner writes \<^verbatim>\<open>m_paused\<close>, so the flag
  still has that value: \<open>branch_agrees\<close>.
\<close>

fun wait_cont :: "opc \<Rightarrow> cont option" where
  "wait_cont (Wait_paused k) = Some k"
| "wait_cont (Wait_total k) = Some k"
| "wait_cont (Wait_running k) = Some k"
| "wait_cont (Wait_queued k tot) = Some k"
| "wait_cont (Wait_counter k queued) = Some k"
| "wait_cont pc = None"

fun branch_taken :: "opc \<Rightarrow> bool option" where
  "branch_taken (Wait_total k) = Some False"
| "branch_taken (Wait_running k) = Some True"
| "branch_taken (Wait_queued k tot) = Some True"
| "branch_taken (Wait_counter k queued) = Some True"
| "branch_taken pc = None"

definition branch_agrees :: "'a system \<Rightarrow> bool" where
  "branch_agrees s \<longleftrightarrow>
     branch_taken (owner s) = None \<or> branch_taken (owner s) = Some (m_paused s)"

text \<open>
  The program points of \<^verbatim>\<open>reset\<close>: \<open>reset_pre\<close> up to and including the point
  before \<^verbatim>\<open>m_paused = false\<close>; \<open>rebuilt\<close> from the new (empty) vector up to the
  point before \<^verbatim>\<open>createThreads\<close> starts the first new worker; \<open>reset_post\<close> after
  the flag was cleared, including the return to the caller. \<open>dtor_pc\<close> are the program
  points of the destructor.
\<close>

fun reset_pre :: "opc \<Rightarrow> bool" where
  "reset_pre (Reset_wasPaused n) = True"
| "reset_pre (Reset_pause n w) = True"
| "reset_pre (Wait_paused (ToReset n w)) = True"
| "reset_pre (Wait_total (ToReset n w)) = True"
| "reset_pre (Wait_running (ToReset n w)) = True"
| "reset_pre (Wait_queued (ToReset n w) tot) = True"
| "reset_pre (Wait_counter (ToReset n w) queued) = True"
| "reset_pre (Reset_stop n w) = True"
| "reset_pre (Reset_join i n w) = True"
| "reset_pre (Reset_count n w) = True"
| "reset_pre (Reset_vector n w) = True"
| "reset_pre (Reset_unpause n w) = True"
| "reset_pre pc = False"

fun rebuilt :: "opc \<Rightarrow> bool" where
  "rebuilt (Reset_unpause n w) = True"
| "rebuilt (Reset_start n w) = True"
| "rebuilt (Create i) = (i = 0)"
| "rebuilt pc = False"

fun reset_post :: "opc \<Rightarrow> bool" where
  "reset_post (Reset_start n w) = True"
| "reset_post (Create i) = True"
| "reset_post Idle = True"
| "reset_post pc = False"

fun dtor_pc :: "opc \<Rightarrow> bool" where
  "dtor_pc (Wait_paused ToDtor) = True"
| "dtor_pc (Wait_total ToDtor) = True"
| "dtor_pc (Wait_running ToDtor) = True"
| "dtor_pc (Wait_queued ToDtor tot) = True"
| "dtor_pc (Wait_counter ToDtor queued) = True"
| "dtor_pc Dtor_stop = True"
| "dtor_pc (Dtor_join i) = True"
| "dtor_pc Destroyed = True"
| "dtor_pc pc = False"

fun is_call :: "'a action \<Rightarrow> bool" where
  "is_call (Call c) = True"
| "is_call a = False"

section \<open>Invariants of executions\<close>

text \<open>
  \<open>reset_progress\<close>: once \<^verbatim>\<open>reset\<close> has passed \<^verbatim>\<open>m_paused = false\<close> the flag is
  false.

  A worker is stale when it has read \<^verbatim>\<open>m_paused\<close> as false and has not yet called
  \<^verbatim>\<open>popTask\<close>. \<open>frozen s0 s\<close>: the pool is paused with no stale worker, every task
  queued in \<open>s0\<close> is still queued in \<open>s\<close> in the same order and position, and the
  tasks executed since \<open>s0\<close> are tasks that workers were already executing in \<open>s0\<close>.

  \<open>reset_keeps s0 s\<close>: what \<^verbatim>\<open>reset\<close>, called in \<open>s0\<close>, maintains until it starts
  the first new worker.
\<close>

definition reset_progress :: "'a system \<Rightarrow> bool" where
  "reset_progress s \<longleftrightarrow> reset_pre (owner s) \<or> (reset_post (owner s) \<and> \<not> m_paused s)"

definition stale :: "'a system \<Rightarrow> bool" where
  "stale s \<longleftrightarrow> Thread AtPop \<in> set (m_threads s)"

definition frozen :: "'a system \<Rightarrow> 'a system \<Rightarrow> bool" where
  "frozen s0 s \<longleftrightarrow>
     m_paused s \<and> \<not> stale s
     \<and> prefix (m_tasks s0) (m_tasks s)
     \<and> prefix (executed s0) (executed s)
     \<and> (\<forall>task \<in> set (drop (length (executed s0)) (executed s)).
           Thread (AtTask task) \<in> set (m_threads s0))
     \<and> (\<forall>task. Thread (AtTask task) \<in> set (m_threads s) \<longrightarrow>
           Thread (AtTask task) \<in> set (m_threads s0))"

definition reset_keeps :: "'a system \<Rightarrow> 'a system \<Rightarrow> bool" where
  "reset_keeps s0 s \<longleftrightarrow>
     (reset_pre (owner s) \<longrightarrow> frozen s0 s)
     \<and> (rebuilt (owner s) \<longrightarrow>
          list_all (\<lambda>t. t = NotAThread) (m_threads s) \<and> prefix (m_tasks s0) (m_tasks s))"

text \<open>
  \<open>enters\<close>: the actions by which a thread enters \<^verbatim>\<open>addTask\<close> or the owner begins a
  lifecycle call. \<open>before_wait\<close>: the program points of \<^verbatim>\<open>reset\<close> before its
  \<^verbatim>\<open>m_paused = true\<close> has been executed.

  \<open>polling s0 s\<close> is what a call of \<^verbatim>\<open>waitForTasks\<close> that began in \<open>s0\<close> maintains
  while it polls a paused pool in which no worker is stale and no submission is in
  progress: the flag, the accounting and the queue are as in \<open>s0\<close>, and the value the
  current poll has sampled (\<open>sampled\<close>) is the queue size, or the queue size plus a number
  that bounds the tasks still held by workers.

  \<open>reset_pausing s0 s\<close>: after its \<^verbatim>\<open>m_paused = true\<close>, and from its call on a pool that
  was paused in \<open>s0\<close>, \<^verbatim>\<open>reset\<close> keeps \<^verbatim>\<open>m_paused\<close> true until it clears it; the vector
  it has rebuilt holds no thread until \<^verbatim>\<open>createThreads\<close> starts one.
\<close>

fun enters :: "'a action \<Rightarrow> bool" where
  "enters (Submit_inc task) = True"
| "enters (Call c) = True"
| "enters a = False"

fun before_wait :: "opc \<Rightarrow> bool" where
  "before_wait (Reset_wasPaused n) = True"
| "before_wait (Reset_pause n w) = True"
| "before_wait pc = False"

definition threads_bounded :: "'a system \<Rightarrow> bool" where
  "threads_bounded s \<longleftrightarrow> length (m_threads s) < 2 ^ 64"

definition sampled :: "'a system \<Rightarrow> bool" where
  "sampled s \<longleftrightarrow>
     (\<forall>k tot. owner s = Wait_queued k tot \<longrightarrow>
        (\<exists>m. tot = of_nat (length (m_tasks s) + m)
           \<and> inflight (m_threads s) \<le> m \<and> m \<le> length (m_threads s)))
     \<and> (\<forall>k queued. owner s = Wait_counter k queued \<longrightarrow> queued = getTasksQueuedCount s)"

definition polling :: "'a system \<Rightarrow> 'a system \<Rightarrow> bool" where
  "polling s0 s \<longleftrightarrow>
     \<not> before_wait (owner s)
     \<and> (wait_cont (owner s) \<noteq> None \<longrightarrow>
          m_paused s = m_paused s0
          \<and> (m_paused s0 \<longrightarrow>
                accounted s \<and> \<not> stale s \<and> submitting s = []
                \<and> m_tasks s = m_tasks s0
                \<and> length (m_threads s) = length (m_threads s0)
                \<and> sampled s))"

definition reset_pausing :: "'a system \<Rightarrow> 'a system \<Rightarrow> bool" where
  "reset_pausing s0 s \<longleftrightarrow>
     (reset_pre (owner s) \<and> (\<not> before_wait (owner s) \<or> m_paused s0) \<longrightarrow> m_paused s)
     \<and> (rebuilt (owner s) \<longrightarrow> list_all (\<lambda>t. t = NotAThread) (m_threads s))"

section \<open>Theorems\<close>

lemmas exec_defs = ThreadPool_def step_def owner_step_def owner_step_queued_first_def
  call_step_def worker_step_def createThreads_iter_def joinThreads_iter_def reset_count_def
  reset_vector_def set_thread_def after_wait_def runningCount_def getTasksQueuedCount_def
  getTasksTotalCount_def getTasksRunningCount_def addTask_inc_def addTask_push_def popTask_def
  setPaused_def

lemma runningCount_unat:
  "unat (runningCount tot queued) =
     (if unat queued \<le> unat tot then unat tot - unat queued
      else unat tot + 2 ^ 64 - unat queued)"
  by (simp add: runningCount_def unat_sub_if_size word_size)

text \<open>
  C10. \<^verbatim>\<open>getTasksRunningCount\<close> is the \<^verbatim>\<open>size_t\<close> difference of two separately
  sampled values: the counter read in one pool state and the queue size read in
  another. For every pair of samples in which the queued count exceeds the total, the
  result is \<open>2^64 - (queued - total)\<close>: it wraps to a huge value, it is neither clamped
  to zero nor negative. Without interference (both samples from one state) the call is
  the same subtraction.
\<close>

theorem getTasksRunningCount_wraps:
  assumes "getTasksTotalCount s1 < getTasksQueuedCount s2"
  shows "unat (runningCount (getTasksTotalCount s1) (getTasksQueuedCount s2)) =
           2 ^ 64 - (unat (getTasksQueuedCount s2) - unat (getTasksTotalCount s1))
       \<and> runningCount (getTasksTotalCount s1) (getTasksQueuedCount s2) \<noteq> 0
       \<and> 2 ^ 64 - unat (getTasksQueuedCount s2)
           \<le> unat (runningCount (getTasksTotalCount s1) (getTasksQueuedCount s2))
       \<and> getTasksRunningCount s1 = runningCount (getTasksTotalCount s1) (getTasksQueuedCount s1)"
proof -
  let ?t = "getTasksTotalCount s1" and ?q = "getTasksQueuedCount s2"
  have lt: "unat ?t < unat ?q"
    using assms by (simp add: word_less_nat_alt)
  have bound: "unat ?q < 2 ^ 64"
    using unsigned_less [of ?q, where 'a = nat] by simp
  have u: "unat (runningCount ?t ?q) = 2 ^ 64 - (unat ?q - unat ?t)"
    using lt bound by (simp add: runningCount_unat)
  have "unat (runningCount ?t ?q) \<noteq> 0"
    using lt bound u by simp
  then have nz: "runningCount ?t ?q \<noteq> 0"
    by (auto simp: unat_eq_0)
  have lo: "2 ^ 64 - unat ?q \<le> unat (runningCount ?t ?q)"
    using lt bound u by simp
  show ?thesis
    using u nz lo by (simp add: getTasksRunningCount_def getTasksTotalCount_def)
qed

theorem getTasksRunningCount_wraps_witness:
  "getTasksTotalCount (ThreadPool 4 1 :: nat system)
     < getTasksQueuedCount (addTask 7 (ThreadPool 4 1 :: nat system))
   \<and> unat (runningCount (getTasksTotalCount (ThreadPool 4 1 :: nat system))
               (getTasksQueuedCount (addTask 7 (ThreadPool 4 1 :: nat system))))
       = 2 ^ 64 - 1"
  using getTasksRunningCount_wraps
    [of "ThreadPool 4 1 :: nat system" "addTask 7 (ThreadPool 4 1 :: nat system)"]
  by (simp add: getTasksTotalCount_def getTasksQueuedCount_def ThreadPool_def
      addTask_def addTask_inc_def addTask_push_def)

text \<open>
  C7. On a non-empty queue \<^verbatim>\<open>popTask\<close> returns the head element, removes exactly
  that element (the rest keeps its order, the queue is one shorter) and changes nothing
  else; on an empty queue it returns the empty signal and leaves the state unchanged.
  It does not block: a worker that is about to call it can always take that step.
\<close>

theorem popTask_head_or_empty:
  "(m_tasks s \<noteq> [] \<longrightarrow>
      fst (popTask s) = Some (hd (m_tasks s))
      \<and> snd (popTask s) = s\<lparr>m_tasks := tl (m_tasks s)\<rparr>
      \<and> m_tasks s = hd (m_tasks s) # m_tasks (snd (popTask s))
      \<and> length (m_tasks (snd (popTask s))) + 1 = length (m_tasks s))
   \<and> (m_tasks s = [] \<longrightarrow> popTask s = (None, s))
   \<and> (i < length (m_threads c) \<and> m_threads c ! i = Thread AtPop \<longrightarrow>
        (\<exists>c'. step hc (Worker i) c = Inr c'))"
  by (cases "m_tasks s"; cases "m_tasks c")
     (simp_all add: popTask_def step_def worker_step_def)

theorem popTask_head_or_empty_witness:
  "m_tasks (addTask 8 (addTask 7 (ThreadPool 4 1 :: nat system))) \<noteq> []
   \<and> fst (popTask (addTask 8 (addTask 7 (ThreadPool 4 1 :: nat system)))) = Some 7
   \<and> m_tasks (snd (popTask (addTask 8 (addTask 7 (ThreadPool 4 1 :: nat system))))) = [8]
   \<and> m_tasks (ThreadPool 4 1 :: nat system) = []
   \<and> popTask (ThreadPool 4 1 :: nat system) = (None, ThreadPool 4 1)
   \<and> (0 :: nat) < length (m_threads (set_thread 0 (Thread AtPop) (ThreadPool 4 1 :: nat system)))
   \<and> m_threads (set_thread 0 (Thread AtPop) (ThreadPool 4 1 :: nat system)) ! 0 = Thread AtPop
   \<and> (\<exists>c'. step 4 (Worker 0) (set_thread 0 (Thread AtPop) (ThreadPool 4 1 :: nat system)) = Inr c')"
  using popTask_head_or_empty
    [of "addTask 8 (addTask 7 (ThreadPool 4 1 :: nat system))" 0
        "set_thread 0 (Thread AtPop) (ThreadPool 4 1 :: nat system)" 4]
    popTask_head_or_empty
    [of "ThreadPool 4 1 :: nat system" 0
        "set_thread 0 (Thread AtPop) (ThreadPool 4 1 :: nat system)" 4]
  by (simp add: ThreadPool_def addTask_def addTask_inc_def addTask_push_def set_thread_def)

text \<open>
  C8. \<^verbatim>\<open>addTask\<close> always succeeds: from every state of the system the two actions of
  a submission can be taken, whatever the owner and the workers are doing, and there is
  no capacity. Its whole effect is one task appended at the tail of the queue and the
  counter incremented by one (as \<^verbatim>\<open>size_t\<close>); threads, thread count and both flags
  are unchanged. The overload with bound arguments does the same with the closure.
\<close>

theorem addTask_effect:
  "run hc [Submit_inc task, Submit_push task] c = Inr (addTask task c)
   \<and> addTask task c =
       c\<lparr>m_tasksTotalCount := m_tasksTotalCount c + 1, m_tasks := m_tasks c @ [task]\<rparr>
   \<and> m_tasks (addTask task c) = m_tasks c @ [task]
   \<and> getTasksTotalCount (addTask task c) = getTasksTotalCount c + 1
   \<and> getTasksQueuedCount (addTask task c) = getTasksQueuedCount c + 1
   \<and> m_threads (addTask task c) = m_threads c
   \<and> getThreadsCount (addTask task c) = getThreadsCount c
   \<and> m_running (addTask task c) = m_running c
   \<and> m_paused (addTask task c) = m_paused c
   \<and> executed (addTask task c) = executed c
   \<and> owner (addTask task c) = owner c
   \<and> addTask_args f args c = addTask (Closure f args) c"
  by (simp add: step_def addTask_def addTask_inc_def addTask_push_def addTask_args_def
      getTasksTotalCount_def getTasksQueuedCount_def getThreadsCount_def)

theorem addTask_effect_witness:
  "run 4 [Submit_inc (Closure (3 :: nat) [1, 2 :: nat]), Submit_push (Closure 3 [1, 2])]
     (ThreadPool 4 1)
   = Inr (addTask_args 3 [1, 2] (ThreadPool 4 1))
   \<and> m_tasks (addTask_args (3 :: nat) [1, 2 :: nat] (ThreadPool 4 1)) = [Closure 3 [1, 2]]
   \<and> getTasksTotalCount (addTask_args (3 :: nat) [1, 2 :: nat] (ThreadPool 4 1)) = 1"
  using addTask_effect [of 4 "Closure (3 :: nat) [1, 2 :: nat]" "ThreadPool 4 1" 3 "[1, 2]"]
  by (simp add: ThreadPool_def getTasksTotalCount_def)

text \<open>
  C1 (the case \<open>threadsCount = 0\<close>). On a platform whose concurrency hint is 4, a pool
  built with one thread is reset with \<^verbatim>\<open>reset(0)\<close>. The call drains, stops and joins
  the worker, sets \<^verbatim>\<open>m_threadsCount\<close> to the hint 4, but sizes \<^verbatim>\<open>m_threads\<close> with
  the argument 0; the first iteration of \<^verbatim>\<open>createThreads\<close> then indexes the empty
  vector. The constructor, given the same argument, sizes the vector with the hint.
\<close>

theorem reset_zero_out_of_range:
  "run 4 [Owner, Owner, Call (Reset 0), Owner, Owner, Owner, Owner, Owner, Owner,
          Worker 0, Owner, Owner, Owner, Owner, Owner, Owner]
     (ThreadPool 4 1 :: nat system)
   = Inr \<lparr>m_tasks = [], m_threads = [], m_threadsCount = 4, m_tasksTotalCount = 0,
          m_running = True, m_paused = False, submitting = [], executed = [],
          owner = Create 0\<rparr>
   \<and> createThreads_iter 0
        \<lparr>m_tasks = [], m_threads = [], m_threadsCount = 4, m_tasksTotalCount = 0,
         m_running = True, m_paused = False, submitting = [], executed = [],
         owner = Create 0\<rparr> = (Inl OutOfRange :: fault + nat system option)
   \<and> run 4 [Owner, Owner, Call (Reset 0), Owner, Owner, Owner, Owner, Owner, Owner,
            Worker 0, Owner, Owner, Owner, Owner, Owner, Owner, Owner]
        (ThreadPool 4 1 :: nat system) = Inl OutOfRange
   \<and> length (m_threads (ThreadPool 4 0 :: nat system)) = 4"
  by (simp add: ThreadPool_def step_def owner_step_def call_step_def worker_step_def
      createThreads_iter_def joinThreads_iter_def reset_count_def reset_vector_def
      set_thread_def after_wait_def runningCount_def getTasksQueuedCount_def)

lemma reset_rebuild_sizes:
  assumes "reset_vector threadsCount (reset_count hc threadsCount s) = Inr s'"
  shows "length (m_threads s') = unat threadsCount"
    and "getThreadsCount s' = (if threadsCount \<noteq> 0 then threadsCount else hc)"
  using assms
  by (auto simp: reset_vector_def reset_count_def getThreadsCount_def split: if_splits)

lemma inflight_update:
  "i < length ts \<Longrightarrow>
   inflight (ts[i := t]) + (if busy (ts ! i) then 1 else 0) =
   inflight ts + (if busy t then 1 else 0)"
  unfolding inflight_def
proof (induction ts arbitrary: i)
  case Nil
  then show ?case by simp
next
  case (Cons a ts)
  then show ?case by (cases i) auto
qed

lemma inflight_update_idle:
  "i < length ts \<Longrightarrow> busy (ts ! i) = busy t \<Longrightarrow> inflight (ts[i := t]) = inflight ts"
  using inflight_update [of i ts t] by (simp split: if_splits)

lemma inflight_replicate: "inflight (replicate n NotAThread) = 0"
  by (simp add: inflight_def)

lemma inflight_all_empty: "list_all (\<lambda>t. t = NotAThread) ts \<Longrightarrow> inflight ts = 0"
  by (induction ts) (auto simp: inflight_def)

lemma worker_step_accounted:
  assumes "accounted s" and "worker_step i s = Inr s'"
  shows "accounted s'"
proof -
  from assms(2) obtain pc pc' s1 where i: "i < length (m_threads s)"
    and th: "m_threads s ! i = Thread pc"
    and w: "worker pc s = Some (pc', s1)"
    and s': "s' = set_thread i (Thread pc') s1"
    by (auto simp: worker_step_def split: if_splits thread.splits option.splits)
  show ?thesis
  proof (cases pc)
    case AtWhile
    with assms(1) i th w s' show ?thesis
      by (auto simp: accounted_def set_thread_def inflight_update_idle)
  next
    case AtPaused
    with assms(1) i th w s' show ?thesis
      by (auto simp: accounted_def set_thread_def inflight_update_idle)
  next
    case AtPop
    show ?thesis
    proof (cases "m_tasks s")
      case Nil
      with AtPop assms(1) i th w s' show ?thesis
        by (auto simp: accounted_def set_thread_def popTask_def inflight_update_idle)
    next
      case (Cons t ts)
      with AtPop w have pc': "pc' = AtTask t" and s1: "s1 = s\<lparr>m_tasks := ts\<rparr>"
        by (auto simp: popTask_def)
      have "inflight ((m_threads s)[i := Thread (AtTask t)]) = inflight (m_threads s) + 1"
        using inflight_update [of i "m_threads s" "Thread (AtTask t)"] i th AtPop by simp
      with assms(1) Cons pc' s1 s' show ?thesis
        by (simp add: accounted_def set_thread_def)
    qed
  next
    case (AtTask t)
    with assms(1) i th w s' show ?thesis
      by (auto simp: accounted_def set_thread_def inflight_update_idle)
  next
    case AtDec
    have "inflight ((m_threads s)[i := Thread AtWhile]) + 1 = inflight (m_threads s)"
      using inflight_update [of i "m_threads s" "Thread AtWhile"] i th AtDec by simp
    then have "inflight (m_threads s) = inflight ((m_threads s)[i := Thread AtWhile]) + 1"
      by simp
    with AtDec assms(1) w s' show ?thesis
      by (auto simp: accounted_def set_thread_def)
  next
    case Exited
    with w show ?thesis by simp
  qed
qed

lemma joinThreads_iter_frame:
  fixes s :: "'a system"
  shows "joinThreads_iter i s = Inr (Some s') \<Longrightarrow>
   inflight (m_threads s') = inflight (m_threads s)
   \<and> length (m_threads s') = length (m_threads s)
   \<and> m_tasks s' = m_tasks s \<and> m_tasksTotalCount s' = m_tasksTotalCount s
   \<and> m_threadsCount s' = m_threadsCount s
   \<and> m_running s' = m_running s \<and> m_paused s' = m_paused s
   \<and> submitting s' = submitting s \<and> executed s' = executed s \<and> owner s' = owner s"
  by (auto simp: joinThreads_iter_def set_thread_def inflight_update_idle
      split: if_splits thread.splits wpc.splits)

lemma createThreads_iter_frame:
  fixes s :: "'a system"
  shows "createThreads_iter i s = Inr (Some s') \<Longrightarrow>
   inflight (m_threads s') = inflight (m_threads s)
   \<and> length (m_threads s') = length (m_threads s)
   \<and> m_tasks s' = m_tasks s \<and> m_tasksTotalCount s' = m_tasksTotalCount s
   \<and> m_threadsCount s' = m_threadsCount s
   \<and> m_running s' = m_running s \<and> m_paused s' = m_paused s
   \<and> submitting s' = submitting s \<and> executed s' = executed s \<and> owner s' = owner s"
  by (auto simp: createThreads_iter_def set_thread_def inflight_update_idle
      split: if_splits thread.splits)

lemma owner_step_accounted:
  assumes "accounted s" and "owner_step hc s = Inr s'"
  shows "accounted s'"
proof (cases "owner s")
  case (Reset_join i n w)
  with assms show ?thesis
    by (auto simp: owner_step_def accounted_def split: sum.splits option.splits
        dest!: joinThreads_iter_frame)
next
  case (Dtor_join i)
  with assms show ?thesis
    by (auto simp: owner_step_def accounted_def split: sum.splits option.splits
        dest!: joinThreads_iter_frame)
next
  case (Create i)
  with assms show ?thesis
    by (auto simp: owner_step_def accounted_def split: sum.splits option.splits
        dest!: createThreads_iter_frame)
next
  case (Reset_vector n w)
  with assms show ?thesis
    by (auto simp: owner_step_def accounted_def reset_vector_def inflight_replicate
        inflight_all_empty split: if_splits)
qed (use assms in \<open>auto simp: owner_step_def accounted_def reset_count_def\<close>)

lemma step_accounted:
  assumes "accounted s" and "step hc a s = Inr s'"
  shows "accounted s'"
proof (cases a)
  case (Worker i)
  with assms show ?thesis by (simp add: step_def worker_step_accounted)
next
  case (Submit_inc t)
  with assms show ?thesis
    by (auto simp: step_def accounted_def addTask_inc_def)
next
  case (Submit_push t)
  with assms have "t \<in> set (submitting s)"
    by (auto simp: step_def split: if_splits)
  then have "length (submitting s) = length (remove1 t (submitting s)) + 1"
    by (simp add: length_remove1) (metis One_nat_def Suc_pred length_pos_if_in_set)
  with Submit_push assms show ?thesis
    by (auto simp: step_def accounted_def addTask_push_def split: if_splits)
next
  case Owner
  with assms show ?thesis by (simp add: step_def owner_step_accounted)
next
  case Owner_queued_first
  with assms show ?thesis
    by (auto simp: step_def owner_step_queued_first_def accounted_def split: opc.splits)
next
  case (Call c)
  with assms show ?thesis
    by (auto simp: step_def call_step_def accounted_def setPaused_def
        split: opc.splits call.splits)
qed

lemma run_accounted:
  "accounted s \<Longrightarrow> run hc as s = Inr s' \<Longrightarrow> accounted s'"
  by (induction as arbitrary: s) (auto split: sum.splits dest: step_accounted)

lemma ThreadPool_accounted: "accounted (ThreadPool hc n)"
  by (simp add: accounted_def ThreadPool_def inflight_replicate)

lemma accounted_running:
  "accounted s \<Longrightarrow>
   getTasksRunningCount s = of_nat (inflight (m_threads s) + length (submitting s))"
  by (simp add: accounted_def getTasksRunningCount_def runningCount_def getTasksQueuedCount_def)

lemma accounted_le:
  assumes "accounted s"
    and "length (m_tasks s) + inflight (m_threads s) + length (submitting s) < 2 ^ 64"
  shows "getTasksQueuedCount s \<le> getTasksTotalCount s"
    and "unat (getTasksRunningCount s) = inflight (m_threads s) + length (submitting s)"
proof -
  let ?q = "length (m_tasks s)" and ?r = "inflight (m_threads s) + length (submitting s)"
  have q: "unat (of_nat ?q :: size_t) = ?q"
    using assms(2) by (simp add: unat_of_nat)
  have t: "unat (of_nat (?q + ?r) :: size_t) = ?q + ?r"
    using assms(2) by (simp add: unat_of_nat add.assoc del: of_nat_add)
  show "getTasksQueuedCount s \<le> getTasksTotalCount s"
    using assms(1) q t
    by (simp add: accounted_def getTasksQueuedCount_def getTasksTotalCount_def
        word_le_nat_alt add.assoc)
  have "unat (of_nat ?r :: size_t) = ?r"
    using assms(2) by (simp add: unat_of_nat del: of_nat_add)
  then show "unat (getTasksRunningCount s) = ?r"
    using accounted_running [OF assms(1)] by simp
qed

text \<open>
  C9. In every state reachable from construction, by any interleaving of worker
  actions, submissions and lifecycle calls, the counter equals queued plus busy plus
  submitting tasks, so the derived running count is the number of busy and submitting
  tasks. As long as fewer than \<open>2^64\<close> tasks are outstanding (a \<^verbatim>\<open>size_t\<close> cannot
  count more) the queued count does not exceed the counter, and the running count is
  that number. Every further action keeps the accounting.
\<close>

theorem queued_le_total:
  assumes "run hc as (ThreadPool hc n) = Inr s"
  shows "getTasksTotalCount s =
           of_nat (length (m_tasks s) + inflight (m_threads s) + length (submitting s))
       \<and> getTasksRunningCount s = of_nat (inflight (m_threads s) + length (submitting s))
       \<and> (length (m_tasks s) + inflight (m_threads s) + length (submitting s) < 2 ^ 64 \<longrightarrow>
            getTasksQueuedCount s \<le> getTasksTotalCount s
            \<and> unat (getTasksRunningCount s) = inflight (m_threads s) + length (submitting s))
       \<and> (\<forall>a s'. step hc a s = Inr s' \<longrightarrow> accounted s')"
proof -
  have acc: "accounted s"
    using run_accounted [OF ThreadPool_accounted assms] .
  show ?thesis
    using acc accounted_running [OF acc] accounted_le [OF acc] step_accounted [OF acc]
    by (auto simp: accounted_def getTasksTotalCount_def)
qed

theorem queued_le_total_witness:
  "run 4 [Owner, Owner, Submit_inc 7, Submit_inc 8, Submit_push 7, Worker 0, Worker 0, Worker 0]
     (ThreadPool 4 1 :: nat system)
   = Inr \<lparr>m_tasks = [], m_threads = [Thread (AtTask 7)], m_threadsCount = 1,
          m_tasksTotalCount = 2, m_running = True, m_paused = False, submitting = [8],
          executed = [], owner = Idle\<rparr>
   \<and> getTasksQueuedCount
        (\<lparr>m_tasks = [], m_threads = [Thread (AtTask (7 :: nat))], m_threadsCount = 1,
         m_tasksTotalCount = 2, m_running = True, m_paused = False, submitting = [8],
         executed = [], owner = Idle\<rparr> :: nat system)
       \<le> getTasksTotalCount
        (\<lparr>m_tasks = [], m_threads = [Thread (AtTask (7 :: nat))], m_threadsCount = 1,
         m_tasksTotalCount = 2, m_running = True, m_paused = False, submitting = [8],
         executed = [], owner = Idle\<rparr> :: nat system)
   \<and> unat (getTasksRunningCount
        (\<lparr>m_tasks = [], m_threads = [Thread (AtTask (7 :: nat))], m_threadsCount = 1,
         m_tasksTotalCount = 2, m_running = True, m_paused = False, submitting = [8],
         executed = [], owner = Idle\<rparr> :: nat system)) = 2"
proof -
  let ?as = "[Owner, Owner, Submit_inc 7, Submit_inc 8, Submit_push 7, Worker 0, Worker 0,
              Worker 0] :: nat action list"
  let ?s = "\<lparr>m_tasks = [], m_threads = [Thread (AtTask (7 :: nat))], m_threadsCount = 1,
         m_tasksTotalCount = 2, m_running = True, m_paused = False, submitting = [8],
         executed = [], owner = Idle\<rparr> :: nat system"
  have r: "run 4 ?as (ThreadPool 4 1) = Inr ?s"
    by (simp add: ThreadPool_def step_def owner_step_def worker_step_def
        createThreads_iter_def set_thread_def addTask_inc_def addTask_push_def popTask_def)
  have b: "length (m_tasks ?s) + inflight (m_threads ?s) + length (submitting ?s) < 2 ^ 64"
    by (simp add: inflight_def)
  have c: "getTasksQueuedCount ?s \<le> getTasksTotalCount ?s
      \<and> unat (getTasksRunningCount ?s) = inflight (m_threads ?s) + length (submitting ?s)"
    using queued_le_total [OF r, THEN conjunct2, THEN conjunct2, THEN conjunct1] b
    by (rule mp)
  have n: "inflight (m_threads ?s) + length (submitting ?s) = 2"
    by (simp add: inflight_def)
  from c n have "getTasksQueuedCount ?s \<le> getTasksTotalCount ?s
      \<and> unat (getTasksRunningCount ?s) = 2"
    by simp
  with r show ?thesis by blast
qed

lemma in_set_updateD: "x \<in> set (xs[i := y]) \<Longrightarrow> x = y \<or> x \<in> set xs"
  using set_update_subset_insert [of xs i y] by auto

lemma joinThreads_iter_flags:
  fixes s :: "'a system"
  shows "joinThreads_iter i s = Inr (Some s') \<Longrightarrow>
    m_paused s' = m_paused s \<and> owner s' = owner s \<and> m_tasks s' = m_tasks s
    \<and> executed s' = executed s \<and> m_tasksTotalCount s' = m_tasksTotalCount s
    \<and> set (m_threads s') \<subseteq> insert NotAThread (set (m_threads s))"
  by (auto simp: joinThreads_iter_def set_thread_def split: if_splits thread.splits wpc.splits
      dest!: in_set_updateD)

lemma createThreads_iter_flags:
  fixes s :: "'a system"
  shows "createThreads_iter i s = Inr (Some s') \<Longrightarrow>
    m_paused s' = m_paused s \<and> owner s' = owner s \<and> m_tasks s' = m_tasks s
    \<and> executed s' = executed s \<and> m_tasksTotalCount s' = m_tasksTotalCount s
    \<and> set (m_threads s') \<subseteq> insert (Thread AtWhile) (set (m_threads s))"
  by (auto simp: createThreads_iter_def set_thread_def split: if_splits thread.splits
      dest!: in_set_updateD)

lemma worker_frame:
  "worker pc s = Some (pc', s1) \<Longrightarrow>
     m_paused s1 = m_paused s \<and> owner s1 = owner s \<and> m_running s1 = m_running s
     \<and> m_threads s1 = m_threads s \<and> m_threadsCount s1 = m_threadsCount s
     \<and> submitting s1 = submitting s"
  by (cases pc) (auto simp: popTask_def split: list.splits)

lemma worker_step_flags:
  "worker_step i s = Inr s' \<Longrightarrow> m_paused s' = m_paused s \<and> owner s' = owner s
     \<and> m_running s' = m_running s"
  by (auto simp: worker_step_def set_thread_def
      split: if_splits thread.splits option.splits dest!: worker_frame)

lemma step_branch_agrees:
  assumes "branch_agrees s" and "step hc a s = Inr s'"
  shows "branch_agrees s'"
proof (cases a)
  case (Worker i)
  with assms show ?thesis
    by (auto simp: step_def branch_agrees_def split: option.splits dest!: worker_step_flags)
next
  case Owner
  with assms show ?thesis
    by (cases "owner s")
       (auto simp: step_def owner_step_def branch_agrees_def reset_count_def reset_vector_def
          after_wait_def
          split: sum.splits option.splits if_splits cont.splits
          dest!: joinThreads_iter_flags createThreads_iter_flags)
next
  case (Call c)
  with assms show ?thesis
    by (cases "owner s"; cases c)
       (auto simp: step_def call_step_def branch_agrees_def setPaused_def)
qed (use assms in \<open>auto simp: step_def branch_agrees_def addTask_inc_def addTask_push_def
       owner_step_queued_first_def split: if_splits opc.splits\<close>)

lemma run_branch_agrees:
  "branch_agrees s \<Longrightarrow> run hc as s = Inr s' \<Longrightarrow> branch_agrees s'"
  by (induction as arbitrary: s) (auto split: sum.splits dest: step_branch_agrees)

lemma ThreadPool_branch_agrees: "branch_agrees (ThreadPool hc n)"
  by (simp add: branch_agrees_def ThreadPool_def)

lemma wait_returns_cases:
  assumes "wait_cont (owner s) = Some k" and "step hc a s = Inr s'"
    and "wait_cont (owner s') = None"
  shows "a = Owner \<and> owner s' = after_wait k \<and> s' = s\<lparr>owner := after_wait k\<rparr>
     \<and> ((owner s = Wait_total k \<and> m_tasksTotalCount s = 0)
        \<or> (\<exists>tot. owner s = Wait_queued k tot \<and> runningCount tot (getTasksQueuedCount s) = 0)
        \<or> (\<exists>queued. owner s = Wait_counter k queued
              \<and> runningCount (m_tasksTotalCount s) queued = 0))"
proof (cases a)
  case (Worker i)
  with assms show ?thesis
    by (auto simp: step_def dest!: worker_step_flags)
next
  case Owner
  with assms show ?thesis
    by (cases "owner s")
       (auto simp: step_def owner_step_def split: if_splits)
next
  case (Call c)
  with assms show ?thesis
    by (cases "owner s") (auto simp: step_def call_step_def)
qed (use assms in \<open>auto simp: step_def addTask_inc_def addTask_push_def
       owner_step_queued_first_def split: if_splits opc.splits\<close>)

lemma step_reset_progress:
  assumes "reset_progress s" and "step hc a s = Inr s'" and "\<not> is_call a"
  shows "reset_progress s'"
proof (cases a)
  case (Worker i)
  with assms show ?thesis
    by (auto simp: step_def reset_progress_def dest!: worker_step_flags)
next
  case Owner
  with assms show ?thesis
    by (cases "owner s" rule: reset_pre.cases)
       (auto simp: step_def owner_step_def reset_progress_def reset_count_def reset_vector_def
          after_wait_def
          split: sum.splits option.splits if_splits
          dest!: joinThreads_iter_flags createThreads_iter_flags)
next
  case Owner_queued_first
  with assms show ?thesis
    by (cases "owner s" rule: reset_pre.cases)
       (auto simp: step_def owner_step_queued_first_def reset_progress_def)
qed (use assms in \<open>auto simp: step_def reset_progress_def addTask_inc_def addTask_push_def
       split: if_splits\<close>)

lemma run_reset_progress:
  "reset_progress s \<Longrightarrow> run hc as s = Inr s' \<Longrightarrow> list_all (\<lambda>a. \<not> is_call a) as \<Longrightarrow>
   reset_progress s'"
  by (induction as arbitrary: s) (auto split: sum.splits dest: step_reset_progress)

text \<open>
  C5. From every state, whatever \<^verbatim>\<open>m_paused\<close> is there, and under every
  interleaving of workers and submissions: when \<^verbatim>\<open>reset\<close> has returned,
  \<^verbatim>\<open>m_paused\<close> is false. \<^verbatim>\<open>wasPaused\<close> is carried through the program points of
  \<^verbatim>\<open>reset\<close> and no action reads it.
\<close>

theorem reset_clears_paused:
  assumes "run hc (Call (Reset n) # as) s = Inr s'"
    and "list_all (\<lambda>a. \<not> is_call a) as"
    and "owner s' = Idle"
  shows "\<not> m_paused s'"
proof -
  from assms(1) obtain s1 where c: "step hc (Call (Reset n)) s = Inr s1"
    and r: "run hc as s1 = Inr s'"
    by (auto split: sum.splits)
  from c have "reset_progress s1"
    by (auto simp: step_def call_step_def reset_progress_def split: opc.splits)
  from run_reset_progress [OF this r assms(2)] assms(3) show ?thesis
    by (simp add: reset_progress_def)
qed

lemma frozen_refl: "m_paused s \<Longrightarrow> \<not> stale s \<Longrightarrow> frozen s s"
  by (simp add: frozen_def)

lemma worker_step_frozen:
  assumes "frozen s0 s" and "worker_step i s = Inr s'"
  shows "frozen s0 s'"
proof -
  from assms(2) obtain pc pc' s1 where i: "i < length (m_threads s)"
    and th: "m_threads s ! i = Thread pc"
    and w: "worker pc s = Some (pc', s1)"
    and s': "s' = set_thread i (Thread pc') s1"
    by (auto simp: worker_step_def split: if_splits thread.splits option.splits)
  from i th have mem: "Thread pc \<in> set (m_threads s)"
    by (metis nth_mem)
  from assms(1) have le: "length (executed s0) \<le> length (executed s)"
    by (simp add: frozen_def prefix_length_le)
  show ?thesis
  proof (cases pc)
    case AtWhile
    with assms(1) w s' show ?thesis
      by (auto simp: frozen_def stale_def set_thread_def split: if_splits dest!: in_set_updateD)
  next
    case AtPaused
    with assms(1) w s' show ?thesis
      by (auto simp: frozen_def stale_def set_thread_def dest!: in_set_updateD)
  next
    case AtPop
    with assms(1) mem show ?thesis
      by (simp add: frozen_def stale_def)
  next
    case (AtTask t)
    with assms(1) w s' mem le show ?thesis
      by (auto simp: frozen_def stale_def set_thread_def prefix_prefix dest!: in_set_updateD)
  next
    case AtDec
    with assms(1) w s' show ?thesis
      by (auto simp: frozen_def stale_def set_thread_def dest!: in_set_updateD)
  next
    case Exited
    with w show ?thesis by simp
  qed
qed

lemma owner_step_frozen:
  assumes "frozen s0 s" and "owner_step hc s = Inr s'" and "m_paused s'"
  shows "frozen s0 s'"
proof (cases "owner s")
  case (Reset_join i n w)
  with assms show ?thesis
    by (auto simp: owner_step_def frozen_def stale_def split: sum.splits option.splits
        dest!: joinThreads_iter_flags)
next
  case (Dtor_join i)
  with assms show ?thesis
    by (auto simp: owner_step_def frozen_def stale_def split: sum.splits option.splits
        dest!: joinThreads_iter_flags)
next
  case (Create i)
  with assms show ?thesis
    by (auto simp: owner_step_def frozen_def stale_def split: sum.splits option.splits
        dest!: createThreads_iter_flags)
qed (use assms in \<open>auto simp: owner_step_def frozen_def stale_def reset_count_def
       reset_vector_def split: if_splits\<close>)

lemma step_frozen:
  assumes "frozen s0 s" and "step hc a s = Inr s'" and "m_paused s'"
  shows "frozen s0 s'"
proof (cases a)
  case (Worker i)
  with assms show ?thesis by (simp add: step_def worker_step_frozen)
next
  case Owner
  with assms show ?thesis by (simp add: step_def owner_step_frozen)
next
  case (Call c)
  with assms show ?thesis
    by (cases "owner s"; cases c)
       (auto simp: step_def call_step_def frozen_def stale_def setPaused_def)
qed (use assms in \<open>auto simp: step_def frozen_def stale_def addTask_inc_def addTask_push_def
       owner_step_queued_first_def prefix_prefix split: if_splits opc.splits\<close>)

lemma step_dtor_pc:
  assumes "dtor_pc (owner s)" and "step hc a s = Inr s'"
  shows "dtor_pc (owner s') \<and> m_paused s' = m_paused s"
proof (cases a)
  case (Worker i)
  with assms show ?thesis
    by (auto simp: step_def dest!: worker_step_flags)
next
  case Owner
  with assms show ?thesis
    by (cases "owner s" rule: dtor_pc.cases)
       (auto simp: step_def owner_step_def after_wait_def
          split: sum.splits option.splits if_splits
          dest!: joinThreads_iter_flags)
next
  case Owner_queued_first
  with assms show ?thesis
    by (cases "owner s" rule: dtor_pc.cases)
       (auto simp: step_def owner_step_queued_first_def)
next
  case (Call c)
  with assms show ?thesis
    by (cases "owner s") (auto simp: step_def call_step_def)
qed (use assms in \<open>auto simp: step_def addTask_inc_def addTask_push_def split: if_splits\<close>)

lemma run_dtor_frozen:
  "frozen s0 s \<Longrightarrow> dtor_pc (owner s) \<Longrightarrow> run hc as s = Inr s' \<Longrightarrow>
   frozen s0 s' \<and> dtor_pc (owner s')"
proof (induction as arbitrary: s)
  case Nil
  then show ?case by simp
next
  case (Cons a as)
  from Cons.prems(3) obtain s1 where st: "step hc a s = Inr s1" and r: "run hc as s1 = Inr s'"
    by (auto split: sum.splits)
  from step_dtor_pc [OF Cons.prems(2) st] Cons.prems(1)
  have d: "dtor_pc (owner s1)" and p: "m_paused s1"
    by (auto simp: frozen_def)
  from step_frozen [OF Cons.prems(1) st p] have "frozen s0 s1" .
  from Cons.IH [OF this d r] show ?case .
qed

text \<open>
  Destruction of a paused pool in which no worker is stale. In every execution of the
  destructor and at every later moment: the tasks that were queued are still queued, in
  order and at the head (none was dequeued), and every task executed since was being
  executed by a worker when destruction began. The flag stays true and the owner never
  leaves the destructor.
\<close>

theorem destroy_abandons_queued:
  assumes "m_paused s" and "\<not> stale s"
    and "run hc (Call Destroy # as) s = Inr s'"
  shows "prefix (m_tasks s) (m_tasks s')
       \<and> prefix (executed s) (executed s')
       \<and> (\<forall>task \<in> set (drop (length (executed s)) (executed s')).
             Thread (AtTask task) \<in> set (m_threads s))
       \<and> m_paused s' \<and> \<not> stale s' \<and> dtor_pc (owner s')"
proof -
  from assms(3) obtain s1 where c: "step hc (Call Destroy) s = Inr s1"
    and r: "run hc as s1 = Inr s'"
    by (auto split: sum.splits)
  from c have s1: "s1 = s\<lparr>owner := Wait_paused ToDtor\<rparr>"
    by (auto simp: step_def call_step_def split: opc.splits)
  from assms(1,2) s1 have "frozen s s1" and "dtor_pc (owner s1)"
    by (simp_all add: frozen_def stale_def)
  from run_dtor_frozen [OF this r] show ?thesis
    by (simp add: frozen_def)
qed

lemma inc_nonzero: "i < n \<Longrightarrow> i + 1 \<noteq> (0 :: size_t)"
  using eq_neg_iff_add_eq_0 by force

lemma worker_step_enabled:
  "worker_step i s = Inr s' \<Longrightarrow> \<not> list_all (\<lambda>t. t = NotAThread) (m_threads s)"
  by (auto simp: worker_step_def list_all_length split: if_splits thread.splits)

lemma owner_step_reset_keeps:
  assumes "reset_keeps s0 s" and "owner_step hc s = Inr s'"
  shows "reset_keeps s0 s'"
proof -
  have pre: "reset_pre (owner s') \<Longrightarrow> reset_pre (owner s) \<and> (m_paused s \<longrightarrow> m_paused s')"
    using assms(2)
    by (cases "owner s" rule: reset_pre.cases)
       (auto simp: owner_step_def reset_count_def reset_vector_def after_wait_def
          split: sum.splits option.splits if_splits
          dest!: joinThreads_iter_flags createThreads_iter_flags)
  have fr: "reset_pre (owner s') \<Longrightarrow> frozen s0 s'"
    using pre assms owner_step_frozen [of s0 s hc s']
    by (auto simp: reset_keeps_def frozen_def)
  have rb: "rebuilt (owner s') \<Longrightarrow>
      list_all (\<lambda>t. t = NotAThread) (m_threads s') \<and> prefix (m_tasks s0) (m_tasks s')"
    using assms
    by (cases "owner s" rule: reset_pre.cases)
       (auto simp: owner_step_def reset_keeps_def reset_count_def reset_vector_def after_wait_def
          frozen_def inc_nonzero createThreads_iter_def list_all_iff
          split: sum.splits option.splits if_splits thread.splits cont.splits
          dest!: joinThreads_iter_flags)
  show ?thesis
    using fr rb by (auto simp: reset_keeps_def)
qed

lemma step_reset_keeps:
  assumes "reset_keeps s0 s" and "step hc a s = Inr s'" and "\<not> is_call a"
  shows "reset_keeps s0 s'"
proof (cases a)
  case (Worker i)
  with assms(2) have w: "worker_step i s = Inr s'"
    by (simp add: step_def)
  from worker_step_flags [OF w] worker_step_enabled [OF w] worker_step_frozen [OF _ w] assms(1)
  show ?thesis
    by (auto simp: reset_keeps_def)
next
  case (Submit_inc t)
  with assms(1,2) show ?thesis
    by (auto simp: step_def reset_keeps_def frozen_def stale_def addTask_inc_def)
next
  case (Submit_push t)
  with assms(1,2) show ?thesis
    by (auto simp: step_def reset_keeps_def frozen_def stale_def addTask_push_def prefix_prefix
        split: if_splits)
next
  case Owner
  with assms show ?thesis by (simp add: step_def owner_step_reset_keeps)
next
  case Owner_queued_first
  with assms(1,2) show ?thesis
    by (cases "owner s" rule: reset_pre.cases)
       (auto simp: step_def owner_step_queued_first_def reset_keeps_def frozen_def stale_def)
next
  case (Call c)
  with assms(3) show ?thesis by simp
qed

lemma run_reset_keeps:
  "reset_keeps s0 s \<Longrightarrow> run hc as s = Inr s' \<Longrightarrow> list_all (\<lambda>a. \<not> is_call a) as \<Longrightarrow>
   reset_keeps s0 s'"
  by (induction as arbitrary: s) (auto split: sum.splits dest: step_reset_keeps)

lemma owner_frame:
  assumes "step hc a s = Inr s'" and "a = Owner \<or> a = Owner_queued_first \<or> is_call a"
  shows "m_tasks s' = m_tasks s \<and> executed s' = executed s
     \<and> m_tasksTotalCount s' = m_tasksTotalCount s"
proof (cases a)
  case Owner
  with assms(1) show ?thesis
    by (cases "owner s")
       (auto simp: step_def owner_step_def reset_count_def reset_vector_def
          split: sum.splits option.splits if_splits
          dest!: joinThreads_iter_flags createThreads_iter_flags)
next
  case Owner_queued_first
  with assms(1) show ?thesis
    by (auto simp: step_def owner_step_queued_first_def split: opc.splits)
next
  case (Call c)
  with assms(1) show ?thesis
    by (cases "owner s"; cases c) (auto simp: step_def call_step_def setPaused_def)
qed (use assms(2) in auto)

lemma worker_step_queue:
  assumes "worker_step i s = Inr s'"
  shows "m_tasks s' = m_tasks s
     \<or> (\<exists>task. m_tasks s = task # m_tasks s' \<and> m_threads s ! i = Thread AtPop
           \<and> m_threads s' ! i = Thread (AtTask task))"
proof -
  from assms obtain pc pc' s1 where i: "i < length (m_threads s)"
    and th: "m_threads s ! i = Thread pc"
    and w: "worker pc s = Some (pc', s1)"
    and s': "s' = set_thread i (Thread pc') s1"
    by (auto simp: worker_step_def split: if_splits thread.splits option.splits)
  from worker_frame [OF w] i have len: "i < length (m_threads s1)"
    by simp
  show ?thesis
    using i th w s' len
    by (cases pc) (auto simp: set_thread_def popTask_def split: list.splits)
qed

lemma owner_step_reset_pausing:
  assumes "reset_pausing s0 s" and "owner_step hc s = Inr s'"
  shows "reset_pausing s0 s'"
  using assms
  by (cases "owner s" rule: reset_pre.cases)
     (auto simp: owner_step_def reset_pausing_def reset_count_def reset_vector_def after_wait_def
        inc_nonzero list_all_iff createThreads_iter_def
        split: sum.splits option.splits if_splits cont.splits thread.splits
        dest!: joinThreads_iter_flags)

lemma step_reset_pausing:
  assumes "reset_pausing s0 s" and "step hc a s = Inr s'" and "\<not> is_call a"
  shows "reset_pausing s0 s'"
proof (cases a)
  case (Worker i)
  with assms(2) have w: "worker_step i s = Inr s'"
    by (simp add: step_def)
  from worker_step_flags [OF w] worker_step_enabled [OF w] assms(1)
  show ?thesis
    by (auto simp: reset_pausing_def)
next
  case (Submit_inc t)
  with assms(1,2) show ?thesis
    by (auto simp: step_def reset_pausing_def addTask_inc_def)
next
  case (Submit_push t)
  with assms(1,2) show ?thesis
    by (auto simp: step_def reset_pausing_def addTask_push_def split: if_splits)
next
  case Owner
  with assms show ?thesis by (simp add: step_def owner_step_reset_pausing)
next
  case Owner_queued_first
  with assms(1,2) show ?thesis
    by (cases "owner s" rule: reset_pre.cases)
       (auto simp: step_def owner_step_queued_first_def reset_pausing_def)
next
  case (Call c)
  with assms(3) show ?thesis by simp
qed

lemma run_reset_pausing:
  "reset_pausing s0 s \<Longrightarrow> run hc as s = Inr s' \<Longrightarrow> list_all (\<lambda>a. \<not> is_call a) as \<Longrightarrow>
   reset_pausing s0 s'"
  by (induction as arbitrary: s) (auto split: sum.splits dest: step_reset_pausing)

lemma reset_call_pausing:
  assumes "run hc (Call (Reset n) # as) s = Inr s'" and "list_all (\<lambda>a. \<not> is_call a) as"
  shows "reset_pausing s s'"
proof -
  from assms(1) obtain s1 where c: "step hc (Call (Reset n)) s = Inr s1"
    and r: "run hc as s1 = Inr s'"
    by (auto split: sum.splits)
  from c have s1: "s1 = s\<lparr>owner := Reset_wasPaused n\<rparr>"
    by (auto simp: step_def call_step_def split: opc.splits)
  then have "reset_pausing s s1"
    by (simp add: reset_pausing_def)
  from run_reset_pausing [OF this r assms(2)] show ?thesis .
qed

text \<open>
  C4 (amended). For every call of \<^verbatim>\<open>reset\<close>, on a paused or on a running pool:
  \<^verbatim>\<open>m_paused\<close> is true from the point after \<^verbatim>\<open>m_paused = true\<close> (on a pool that was
  paused at the call: from the call) up to the point before \<^verbatim>\<open>m_paused = false\<close>.
  From any state \<open>s1\<close> of that stretch in which no worker is stale, the tasks queued in
  \<open>s1\<close> are still queued, in order and at the head, until \<^verbatim>\<open>createThreads\<close> starts the
  first new worker; on a pool that was paused with no stale worker at the call, that
  holds for the tasks queued at the call. No action of the owner changes the queue; in
  any state, the queue changes only by a submission appending at the tail or by a worker
  taking the head, which it then executes.
\<close>

theorem reset_keeps_queue:
  "(run hc (Call (Reset n) # as1) s = Inr s1 \<and> list_all (\<lambda>a. \<not> is_call a) as1
      \<and> reset_pre (owner s1) \<and> (m_paused s \<or> \<not> before_wait (owner s1))
    \<longrightarrow> m_paused s1)
   \<and> (run hc (Call (Reset n) # as1) s = Inr s1 \<and> list_all (\<lambda>a. \<not> is_call a) as1
      \<and> reset_pre (owner s1) \<and> (m_paused s \<or> \<not> before_wait (owner s1))
      \<and> \<not> stale s1
      \<and> run hc as2 s1 = Inr s' \<and> list_all (\<lambda>a. \<not> is_call a) as2
      \<and> (reset_pre (owner s') \<or> rebuilt (owner s'))
    \<longrightarrow> prefix (m_tasks s1) (m_tasks s'))
   \<and> (m_paused s \<and> \<not> stale s
      \<and> run hc (Call (Reset n) # as) s = Inr s'
      \<and> list_all (\<lambda>a. \<not> is_call a) as
      \<and> (reset_pre (owner s') \<or> rebuilt (owner s'))
    \<longrightarrow> prefix (m_tasks s) (m_tasks s'))
   \<and> (step hc a t = Inr t' \<and> (a = Owner \<or> a = Owner_queued_first \<or> is_call a) \<longrightarrow>
         m_tasks t' = m_tasks t)
   \<and> (step hc a t = Inr t' \<longrightarrow>
         m_tasks t' = m_tasks t
         \<or> (\<exists>task. m_tasks t' = m_tasks t @ [task])
         \<or> (\<exists>task i. a = Worker i \<and> m_tasks t = task # m_tasks t'
               \<and> m_threads t' ! i = Thread (AtTask task)))"
proof -
  have forced: "m_paused s1"
    if "run hc (Call (Reset n) # as1) s = Inr s1" and "list_all (\<lambda>a. \<not> is_call a) as1"
      and "reset_pre (owner s1)" and "m_paused s \<or> \<not> before_wait (owner s1)"
    using reset_call_pausing [OF that(1,2)] that(3,4)
    by (auto simp: reset_pausing_def)
  have kept: "prefix (m_tasks s1) (m_tasks s')"
    if call: "run hc (Call (Reset n) # as1) s = Inr s1"
      and nc1: "list_all (\<lambda>a. \<not> is_call a) as1"
      and pre: "reset_pre (owner s1)" and pz: "m_paused s \<or> \<not> before_wait (owner s1)"
      and ns: "\<not> stale s1"
      and r: "run hc as2 s1 = Inr s'" and nc2: "list_all (\<lambda>a. \<not> is_call a) as2"
      and pc: "reset_pre (owner s') \<or> rebuilt (owner s')"
  proof -
    from forced [OF call nc1 pre pz] have p: "m_paused s1" .
    from reset_call_pausing [OF call nc1]
    have "rebuilt (owner s1) \<longrightarrow> list_all (\<lambda>t. t = NotAThread) (m_threads s1)"
      by (simp add: reset_pausing_def)
    with frozen_refl [OF p ns] have "reset_keeps s1 s1"
      by (simp add: reset_keeps_def)
    from run_reset_keeps [OF this r nc2] pc show ?thesis
      by (auto simp: reset_keeps_def frozen_def)
  qed
  have 1: "prefix (m_tasks s) (m_tasks s')"
    if p: "m_paused s" and ns: "\<not> stale s"
      and run: "run hc (Call (Reset n) # as) s = Inr s'"
      and nc: "list_all (\<lambda>a. \<not> is_call a) as"
      and pc: "reset_pre (owner s') \<or> rebuilt (owner s')"
  proof -
    from run obtain s1 where c: "step hc (Call (Reset n)) s = Inr s1"
      and r: "run hc as s1 = Inr s'"
      by (auto split: sum.splits)
    from c have s1: "s1 = s\<lparr>owner := Reset_wasPaused n\<rparr>"
      by (auto simp: step_def call_step_def split: opc.splits)
    from p ns s1 have "reset_keeps s s1"
      by (simp add: reset_keeps_def frozen_def stale_def)
    from run_reset_keeps [OF this r nc] pc show ?thesis
      by (auto simp: reset_keeps_def frozen_def)
  qed
  have 2: "m_tasks t' = m_tasks t"
    if "step hc a t = Inr t'" and "a = Owner \<or> a = Owner_queued_first \<or> is_call a"
    using owner_frame [OF that] by simp
  have 3: "m_tasks t' = m_tasks t
             \<or> (\<exists>task. m_tasks t' = m_tasks t @ [task])
             \<or> (\<exists>task i. a = Worker i \<and> m_tasks t = task # m_tasks t'
                   \<and> m_threads t' ! i = Thread (AtTask task))"
    if st: "step hc a t = Inr t'"
  proof (cases a)
    case (Worker i)
    with st worker_step_queue [of i t t'] show ?thesis
      by (auto simp: step_def)
  next
    case (Submit_inc x)
    with st show ?thesis by (auto simp: step_def addTask_inc_def)
  next
    case (Submit_push x)
    with st show ?thesis by (auto simp: step_def addTask_push_def split: if_splits)
  next
    case Owner
    with st owner_frame [OF st] show ?thesis by simp
  next
    case Owner_queued_first
    with st owner_frame [OF st] show ?thesis by simp
  next
    case (Call c)
    with st owner_frame [OF st] show ?thesis by simp
  qed
  from forced kept 1 2 3 show ?thesis by blast
qed

text \<open>
  While \<^verbatim>\<open>m_paused\<close> is true, the action of a worker at the loop test or at the test
  of \<^verbatim>\<open>m_paused\<close> leaves queue, counters, execution log and flags unchanged and does
  not lead to \<^verbatim>\<open>popTask\<close>; the queue is changed by a worker only from the point after
  it read \<^verbatim>\<open>m_paused\<close> as false; and if no worker is stale, any action after which the
  flag is still true leaves no worker stale, leaves the queued tasks queued and executes
  at most a task that a worker was already executing.
\<close>

theorem paused_worker_skips:
  assumes "m_paused s"
  shows "(i < length (m_threads s)
          \<and> (m_threads s ! i = Thread AtWhile \<or> m_threads s ! i = Thread AtPaused)
          \<and> step hc (Worker i) s = Inr s' \<longrightarrow>
            m_tasks s' = m_tasks s \<and> executed s' = executed s
            \<and> getTasksTotalCount s' = getTasksTotalCount s
            \<and> getTasksQueuedCount s' = getTasksQueuedCount s
            \<and> getTasksRunningCount s' = getTasksRunningCount s
            \<and> m_paused s' \<and> m_running s' = m_running s
            \<and> (m_threads s' ! i = Thread AtWhile \<or> m_threads s' ! i = Thread AtPaused
                \<or> m_threads s' ! i = Thread Exited))
       \<and> (step hc (Worker j) s = Inr s2 \<and> m_tasks s2 \<noteq> m_tasks s \<longrightarrow>
            m_threads s ! j = Thread AtPop)
       \<and> (\<not> stale s \<and> step hc a s = Inr s3 \<and> m_paused s3 \<longrightarrow>
            \<not> stale s3 \<and> prefix (m_tasks s) (m_tasks s3)
            \<and> (executed s3 = executed s
                \<or> (\<exists>task. executed s3 = executed s @ [task]
                      \<and> Thread (AtTask task) \<in> set (m_threads s))))"
proof -
  have 1: "m_tasks s' = m_tasks s \<and> executed s' = executed s
            \<and> getTasksTotalCount s' = getTasksTotalCount s
            \<and> getTasksQueuedCount s' = getTasksQueuedCount s
            \<and> getTasksRunningCount s' = getTasksRunningCount s
            \<and> m_paused s' \<and> m_running s' = m_running s
            \<and> (m_threads s' ! i = Thread AtWhile \<or> m_threads s' ! i = Thread AtPaused
                \<or> m_threads s' ! i = Thread Exited)"
    if "i < length (m_threads s)"
      and "m_threads s ! i = Thread AtWhile \<or> m_threads s ! i = Thread AtPaused"
      and "step hc (Worker i) s = Inr s'"
    using that assms
    by (auto simp: step_def worker_step_def set_thread_def getTasksTotalCount_def
        getTasksQueuedCount_def getTasksRunningCount_def split: if_splits)
  have 2: "m_threads s ! j = Thread AtPop"
    if "step hc (Worker j) s = Inr s2" and "m_tasks s2 \<noteq> m_tasks s"
    using that worker_step_queue [of j s s2] by (auto simp: step_def)
  have 3: "\<not> stale s3 \<and> prefix (m_tasks s) (m_tasks s3)
            \<and> (executed s3 = executed s
                \<or> (\<exists>task. executed s3 = executed s @ [task]
                      \<and> Thread (AtTask task) \<in> set (m_threads s)))"
    if ns: "\<not> stale s" and st: "step hc a s = Inr s3" and p: "m_paused s3"
  proof -
    from step_frozen [OF frozen_refl [OF assms ns] st p]
    have f: "\<not> stale s3" "prefix (m_tasks s) (m_tasks s3)"
      by (simp_all add: frozen_def)
    have "executed s3 = executed s
                \<or> (\<exists>task. executed s3 = executed s @ [task]
                      \<and> Thread (AtTask task) \<in> set (m_threads s))"
    proof (cases a)
      case (Worker k)
      with st obtain pc pc' s1 where i: "k < length (m_threads s)"
        and th: "m_threads s ! k = Thread pc"
        and w: "worker pc s = Some (pc', s1)"
        and s': "s3 = set_thread k (Thread pc') s1"
        by (auto simp: step_def worker_step_def split: if_splits thread.splits option.splits)
      from i th have "Thread pc \<in> set (m_threads s)"
        by (metis nth_mem)
      with w s' show ?thesis
        by (cases pc) (auto simp: set_thread_def popTask_def split: list.splits)
    next
      case (Submit_inc t)
      with st show ?thesis by (auto simp: step_def addTask_inc_def)
    next
      case (Submit_push t)
      with st show ?thesis by (auto simp: step_def addTask_push_def split: if_splits)
    next
      case Owner
      with st owner_frame [OF st] show ?thesis by simp
    next
      case Owner_queued_first
      with st owner_frame [OF st] show ?thesis by simp
    next
      case (Call c)
      with st owner_frame [OF st] show ?thesis by simp
    qed
    with f show ?thesis by simp
  qed
  from 1 2 3 show ?thesis by blast
qed

text \<open>
  An instance: a worker at the test of \<^verbatim>\<open>m_paused\<close> in a paused pool.
\<close>

theorem paused_worker_skips_witness:
  "m_paused (\<lparr>m_tasks = [7], m_threads = [Thread AtPaused], m_threadsCount = 1,
        m_tasksTotalCount = 1, m_running = True, m_paused = True, submitting = [],
        executed = [], owner = Idle\<rparr> :: nat system)
   \<and> (0 :: nat) < length (m_threads (\<lparr>m_tasks = [7], m_threads = [Thread AtPaused], m_threadsCount = 1,
        m_tasksTotalCount = 1, m_running = True, m_paused = True, submitting = [],
        executed = [], owner = Idle\<rparr> :: nat system))
   \<and> m_threads (\<lparr>m_tasks = [7], m_threads = [Thread AtPaused], m_threadsCount = 1,
        m_tasksTotalCount = 1, m_running = True, m_paused = True, submitting = [],
        executed = [], owner = Idle\<rparr> :: nat system) ! 0 = Thread AtPaused
   \<and> step 4 (Worker 0) (\<lparr>m_tasks = [7], m_threads = [Thread AtPaused], m_threadsCount = 1,
        m_tasksTotalCount = 1, m_running = True, m_paused = True, submitting = [],
        executed = [], owner = Idle\<rparr> :: nat system)
     = Inr (\<lparr>m_tasks = [7], m_threads = [Thread AtWhile], m_threadsCount = 1,
        m_tasksTotalCount = 1, m_running = True, m_paused = True, submitting = [],
        executed = [], owner = Idle\<rparr> :: nat system)
   \<and> m_tasks (\<lparr>m_tasks = [7], m_threads = [Thread AtWhile], m_threadsCount = 1,
        m_tasksTotalCount = 1, m_running = True, m_paused = True, submitting = [],
        executed = [], owner = Idle\<rparr> :: nat system) = m_tasks (\<lparr>m_tasks = [7], m_threads = [Thread AtPaused], m_threadsCount = 1,
        m_tasksTotalCount = 1, m_running = True, m_paused = True, submitting = [],
        executed = [], owner = Idle\<rparr> :: nat system)
   \<and> \<not> stale (\<lparr>m_tasks = [7], m_threads = [Thread AtPaused], m_threadsCount = 1,
        m_tasksTotalCount = 1, m_running = True, m_paused = True, submitting = [],
        executed = [], owner = Idle\<rparr> :: nat system)
   \<and> m_paused (\<lparr>m_tasks = [7], m_threads = [Thread AtWhile], m_threadsCount = 1,
        m_tasksTotalCount = 1, m_running = True, m_paused = True, submitting = [],
        executed = [], owner = Idle\<rparr> :: nat system)
   \<and> \<not> stale (\<lparr>m_tasks = [7], m_threads = [Thread AtWhile], m_threadsCount = 1,
        m_tasksTotalCount = 1, m_running = True, m_paused = True, submitting = [],
        executed = [], owner = Idle\<rparr> :: nat system)"
proof -
  let ?s = "(\<lparr>m_tasks = [7], m_threads = [Thread AtPaused], m_threadsCount = 1,
        m_tasksTotalCount = 1, m_running = True, m_paused = True, submitting = [],
        executed = [], owner = Idle\<rparr> :: nat system)"
  let ?s' = "(\<lparr>m_tasks = [7], m_threads = [Thread AtWhile], m_threadsCount = 1,
        m_tasksTotalCount = 1, m_running = True, m_paused = True, submitting = [],
        executed = [], owner = Idle\<rparr> :: nat system)"
  have p: "m_paused ?s"
    by simp
  have i: "(0 :: nat) < length (m_threads ?s)"
    by simp
  have pc: "m_threads ?s ! 0 = Thread AtPaused"
    by simp
  have st: "step 4 (Worker 0) ?s = Inr ?s'"
    by (simp add: exec_defs)
  have ns: "\<not> stale ?s"
    by (simp add: stale_def)
  have p': "m_paused ?s'"
    by simp
  note t = paused_worker_skips [OF p, of 0 4 ?s' 0 ?s' "Worker 0" ?s']
  from t i pc st have "m_tasks ?s' = m_tasks ?s"
    by blast
  moreover from t ns st p' have "\<not> stale ?s'"
    by blast
  ultimately show ?thesis
    using p i pc st ns p' by blast
qed

text \<open>
  C6. The calls of \<^verbatim>\<open>checkThreadPoolPausing\<close> on a platform with one core: a pool of one
  thread, \<^verbatim>\<open>setPaused(true)\<close>, then three \<^verbatim>\<open>addTask\<close>. The worker reads
  \<^verbatim>\<open>m_paused\<close> as false just before \<^verbatim>\<open>setPaused(true)\<close>. With the flag true and the
  three tasks queued, its next action dequeues task 7 and the one after executes it:
  the counters are total 3, running 1, queued 2, where the test checks total 3,
  running 0, queued 3.
\<close>

theorem pausing_test_interleaving:
  "run 1 [Owner, Owner, Worker 0, Worker 0, Call (SetPaused True), Submit_inc 7, Submit_push 7,
          Submit_inc 8, Submit_push 8, Submit_inc 9, Submit_push 9]
     (ThreadPool 1 1 :: nat system)
   = Inr \<lparr>m_tasks = [7, 8, 9], m_threads = [Thread AtPop], m_threadsCount = 1,
        m_tasksTotalCount = 3, m_running = True, m_paused = True, submitting = [],
        executed = [], owner = Idle\<rparr>
   \<and> step 1 (Worker 0)
       \<lparr>m_tasks = [7 :: nat, 8, 9], m_threads = [Thread AtPop], m_threadsCount = 1,
        m_tasksTotalCount = 3, m_running = True, m_paused = True, submitting = [],
        executed = [], owner = Idle\<rparr>
     = Inr \<lparr>m_tasks = [8, 9], m_threads = [Thread (AtTask 7)], m_threadsCount = 1,
        m_tasksTotalCount = 3, m_running = True, m_paused = True, submitting = [],
        executed = [], owner = Idle\<rparr>
   \<and> getTasksTotalCount (\<lparr>m_tasks = [8, 9], m_threads = [Thread (AtTask (7 :: nat))], m_threadsCount = 1,
        m_tasksTotalCount = 3, m_running = True, m_paused = True, submitting = [],
        executed = [], owner = Idle\<rparr> :: nat system) = 3
   \<and> getTasksRunningCount (\<lparr>m_tasks = [8, 9], m_threads = [Thread (AtTask (7 :: nat))], m_threadsCount = 1,
        m_tasksTotalCount = 3, m_running = True, m_paused = True, submitting = [],
        executed = [], owner = Idle\<rparr> :: nat system) = 1
   \<and> getTasksQueuedCount (\<lparr>m_tasks = [8, 9], m_threads = [Thread (AtTask (7 :: nat))], m_threadsCount = 1,
        m_tasksTotalCount = 3, m_running = True, m_paused = True, submitting = [],
        executed = [], owner = Idle\<rparr> :: nat system) = 2
   \<and> step 1 (Worker 0)
       (\<lparr>m_tasks = [8, 9], m_threads = [Thread (AtTask (7 :: nat))], m_threadsCount = 1,
        m_tasksTotalCount = 3, m_running = True, m_paused = True, submitting = [],
        executed = [], owner = Idle\<rparr> :: nat system)
     = Inr \<lparr>m_tasks = [8, 9], m_threads = [Thread AtDec], m_threadsCount = 1,
        m_tasksTotalCount = 3, m_running = True, m_paused = True, submitting = [],
        executed = [7], owner = Idle\<rparr>"
  by (simp add: exec_defs)

text \<open>
  An instance of C5: \<^verbatim>\<open>reset(1)\<close> on a paused pool with one queued task runs to its
  return, and the pool is then not paused.
\<close>

theorem reset_clears_paused_witness:
  "m_paused (\<lparr>m_tasks = [7], m_threads = [Thread AtWhile], m_threadsCount = 1,
        m_tasksTotalCount = 1, m_running = True, m_paused = True, submitting = [],
        executed = [], owner = Idle\<rparr> :: nat system)
   \<and> run 4 (Call (Reset 1) #
          [Owner, Owner, Owner, Owner, Owner, Owner, Worker 0, Owner, Owner, Owner, Owner,
           Owner, Owner, Owner, Owner])
       (\<lparr>m_tasks = [7], m_threads = [Thread AtWhile], m_threadsCount = 1,
        m_tasksTotalCount = 1, m_running = True, m_paused = True, submitting = [],
        executed = [], owner = Idle\<rparr> :: nat system)
     = Inr (\<lparr>m_tasks = [7], m_threads = [Thread AtWhile], m_threadsCount = 1,
        m_tasksTotalCount = 1, m_running = True, m_paused = False, submitting = [],
        executed = [], owner = Idle\<rparr> :: nat system)
   \<and> \<not> m_paused (\<lparr>m_tasks = [7], m_threads = [Thread AtWhile], m_threadsCount = 1,
        m_tasksTotalCount = 1, m_running = True, m_paused = False, submitting = [],
        executed = [], owner = Idle\<rparr> :: nat system)"
proof -
  let ?as = "[Owner, Owner, Owner, Owner, Owner, Owner, Worker 0, Owner, Owner, Owner, Owner,
           Owner, Owner, Owner, Owner] :: nat action list"
  let ?s = "(\<lparr>m_tasks = [7], m_threads = [Thread AtWhile], m_threadsCount = 1,
        m_tasksTotalCount = 1, m_running = True, m_paused = True, submitting = [],
        executed = [], owner = Idle\<rparr> :: nat system)"
  let ?s' = "(\<lparr>m_tasks = [7], m_threads = [Thread AtWhile], m_threadsCount = 1,
        m_tasksTotalCount = 1, m_running = True, m_paused = False, submitting = [],
        executed = [], owner = Idle\<rparr> :: nat system)"
  have r: "run 4 (Call (Reset 1) # ?as) ?s = Inr ?s'"
    by (simp add: exec_defs)
  have nc: "list_all (\<lambda>a. \<not> is_call a) ?as"
    by simp
  have idle: "owner ?s' = Idle"
    by simp
  have "\<not> m_paused ?s'"
    using reset_clears_paused [OF r nc idle] .
  with r show ?thesis by simp
qed

text \<open>
  C3. The pool is paused with task 7 queued when destruction begins, and task 7 is
  executed during destruction. A worker reads \<^verbatim>\<open>m_paused\<close> as false, the owner calls
  \<^verbatim>\<open>setPaused(true)\<close> and then destroys the pool. The destructor's \<^verbatim>\<open>waitForTasks\<close>
  sees counter 1 and queue size 1 and returns; the worker then dequeues task 7 and
  executes it before it is joined.
\<close>

theorem destroy_runs_queued_task:
  "run 4 [Owner, Owner, Submit_inc 7, Submit_push 7, Worker 0, Worker 0, Call (SetPaused True)]
     (ThreadPool 4 1 :: nat system)
   = Inr \<lparr>m_tasks = [7], m_threads = [Thread AtPop], m_threadsCount = 1,
        m_tasksTotalCount = 1, m_running = True, m_paused = True, submitting = [],
        executed = [], owner = Idle\<rparr>
   \<and> run 4 [Call Destroy, Owner, Owner, Owner, Owner, Worker 0, Worker 0, Worker 0, Worker 0,
            Owner, Owner]
       (\<lparr>m_tasks = [7], m_threads = [Thread AtPop], m_threadsCount = 1,
        m_tasksTotalCount = 1, m_running = True, m_paused = True, submitting = [],
        executed = [], owner = Idle\<rparr> :: nat system)
     = Inr \<lparr>m_tasks = [], m_threads = [NotAThread], m_threadsCount = 1,
        m_tasksTotalCount = 0, m_running = False, m_paused = True, submitting = [],
        executed = [7], owner = Destroyed\<rparr>"
  by (simp add: exec_defs)

text \<open>
  An instance without a stale worker: a paused pool with task 7 queued and its worker at
  the loop test is destroyed; the destructor completes, task 7 is still queued and
  nothing was executed.
\<close>

theorem destroy_abandons_queued_witness:
  "m_paused (\<lparr>m_tasks = [7], m_threads = [Thread AtWhile], m_threadsCount = 1,
        m_tasksTotalCount = 1, m_running = True, m_paused = True, submitting = [],
        executed = [], owner = Idle\<rparr> :: nat system)
   \<and> \<not> stale (\<lparr>m_tasks = [7], m_threads = [Thread AtWhile], m_threadsCount = 1,
        m_tasksTotalCount = 1, m_running = True, m_paused = True, submitting = [],
        executed = [], owner = Idle\<rparr> :: nat system)
   \<and> run 4 (Call Destroy # [Owner, Owner, Owner, Owner, Worker 0, Owner, Owner])
       (\<lparr>m_tasks = [7], m_threads = [Thread AtWhile], m_threadsCount = 1,
        m_tasksTotalCount = 1, m_running = True, m_paused = True, submitting = [],
        executed = [], owner = Idle\<rparr> :: nat system)
     = Inr (\<lparr>m_tasks = [7], m_threads = [NotAThread], m_threadsCount = 1,
        m_tasksTotalCount = 1, m_running = False, m_paused = True, submitting = [],
        executed = [], owner = Destroyed\<rparr> :: nat system)
   \<and> prefix (m_tasks (\<lparr>m_tasks = [7], m_threads = [Thread AtWhile], m_threadsCount = 1,
        m_tasksTotalCount = 1, m_running = True, m_paused = True, submitting = [],
        executed = [], owner = Idle\<rparr> :: nat system))
       (m_tasks (\<lparr>m_tasks = [7], m_threads = [NotAThread], m_threadsCount = 1,
        m_tasksTotalCount = 1, m_running = False, m_paused = True, submitting = [],
        executed = [], owner = Destroyed\<rparr> :: nat system))
   \<and> executed (\<lparr>m_tasks = [7], m_threads = [NotAThread], m_threadsCount = 1,
        m_tasksTotalCount = 1, m_running = False, m_paused = True, submitting = [],
        executed = [], owner = Destroyed\<rparr> :: nat system) = executed (\<lparr>m_tasks = [7], m_threads = [Thread AtWhile], m_threadsCount = 1,
        m_tasksTotalCount = 1, m_running = True, m_paused = True, submitting = [],
        executed = [], owner = Idle\<rparr> :: nat system)"
proof -
  let ?as = "[Owner, Owner, Owner, Owner, Worker 0, Owner, Owner] :: nat action list"
  let ?s = "(\<lparr>m_tasks = [7], m_threads = [Thread AtWhile], m_threadsCount = 1,
        m_tasksTotalCount = 1, m_running = True, m_paused = True, submitting = [],
        executed = [], owner = Idle\<rparr> :: nat system)"
  let ?s' = "(\<lparr>m_tasks = [7], m_threads = [NotAThread], m_threadsCount = 1,
        m_tasksTotalCount = 1, m_running = False, m_paused = True, submitting = [],
        executed = [], owner = Destroyed\<rparr> :: nat system)"
  have p: "m_paused ?s"
    by simp
  have ns: "\<not> stale ?s"
    by (simp add: stale_def)
  have r: "run 4 (Call Destroy # ?as) ?s = Inr ?s'"
    by (simp add: exec_defs)
  have "prefix (m_tasks ?s) (m_tasks ?s')"
    using destroy_abandons_queued [OF p ns r] by (rule conjunct1)
  moreover have "executed ?s' = executed ?s"
    by simp
  ultimately show ?thesis
    using p ns r by blast
qed

text \<open>
  C4 as stated fails. First run: \<^verbatim>\<open>reset(1)\<close> is called on a paused pool with task 7
  queued and no stale worker; after \<^verbatim>\<open>createThreads\<close> has started the new worker, and
  before \<^verbatim>\<open>reset\<close> returns, that worker dequeues task 7, and when \<^verbatim>\<open>reset\<close> returns
  the queue is empty. Second run: \<^verbatim>\<open>reset(1)\<close> is called on a running pool with tasks
  7 and 8 queued; before \<^verbatim>\<open>reset\<close> executes \<^verbatim>\<open>m_paused = true\<close> the worker reads the
  flag as false and dequeues task 7, which it executes; when \<^verbatim>\<open>reset\<close> returns only
  task 8 is queued.
\<close>

theorem reset_loses_queue_counterexample:
  "run 4 [Owner, Owner, Call (SetPaused True), Submit_inc 7, Submit_push 7]
     (ThreadPool 4 1 :: nat system)
   = Inr \<lparr>m_tasks = [7], m_threads = [Thread AtWhile], m_threadsCount = 1,
        m_tasksTotalCount = 1, m_running = True, m_paused = True, submitting = [],
        executed = [], owner = Idle\<rparr>
   \<and> run 4 [Call (Reset 1), Owner, Owner, Owner, Owner, Owner, Owner, Worker 0, Owner, Owner,
            Owner, Owner, Owner, Owner, Owner, Worker 0, Worker 0, Worker 0, Owner]
       (\<lparr>m_tasks = [7], m_threads = [Thread AtWhile], m_threadsCount = 1,
        m_tasksTotalCount = 1, m_running = True, m_paused = True, submitting = [],
        executed = [], owner = Idle\<rparr> :: nat system)
     = Inr \<lparr>m_tasks = [], m_threads = [Thread (AtTask 7)], m_threadsCount = 1,
        m_tasksTotalCount = 1, m_running = True, m_paused = False, submitting = [],
        executed = [], owner = Idle\<rparr>
   \<and> run 4 [Owner, Owner, Submit_inc 7, Submit_push 7, Submit_inc 8, Submit_push 8]
       (ThreadPool 4 1 :: nat system)
     = Inr \<lparr>m_tasks = [7, 8], m_threads = [Thread AtWhile], m_threadsCount = 1,
        m_tasksTotalCount = 2, m_running = True, m_paused = False, submitting = [],
        executed = [], owner = Idle\<rparr>
   \<and> run 4 [Call (Reset 1), Worker 0, Worker 0, Worker 0, Owner, Owner, Worker 0, Worker 0,
            Owner, Owner, Owner, Owner, Worker 0, Owner, Owner, Owner, Owner, Owner, Owner,
            Owner, Owner]
       (\<lparr>m_tasks = [7, 8], m_threads = [Thread AtWhile], m_threadsCount = 1,
        m_tasksTotalCount = 2, m_running = True, m_paused = False, submitting = [],
        executed = [], owner = Idle\<rparr> :: nat system)
     = Inr \<lparr>m_tasks = [8], m_threads = [Thread AtWhile], m_threadsCount = 1,
        m_tasksTotalCount = 1, m_running = True, m_paused = False, submitting = [],
        executed = [7], owner = Idle\<rparr>"
  by (simp add: exec_defs)

text \<open>
  An instance of C4 (amended): \<^verbatim>\<open>reset(1)\<close> on a running pool with tasks 7 and 8
  queued. After \<^verbatim>\<open>m_paused = true\<close> the flag is true and no worker is stale; at the
  point where \<^verbatim>\<open>createThreads\<close> is about to start the new worker, tasks 7 and 8 are
  still queued in that order.
\<close>

theorem reset_keeps_queue_witness:
  "run 4 (Call (Reset 1) # [Owner, Owner])
     (\<lparr>m_tasks = [7, 8], m_threads = [Thread AtWhile], m_threadsCount = 1,
        m_tasksTotalCount = 2, m_running = True, m_paused = False, submitting = [],
        executed = [], owner = Idle\<rparr> :: nat system)
   = Inr (\<lparr>m_tasks = [7, 8], m_threads = [Thread AtWhile], m_threadsCount = 1,
        m_tasksTotalCount = 2, m_running = True, m_paused = True, submitting = [],
        executed = [], owner = Wait_paused (ToReset 1 False)\<rparr> :: nat system)
   \<and> m_paused (\<lparr>m_tasks = [7, 8], m_threads = [Thread AtWhile], m_threadsCount = 1,
        m_tasksTotalCount = 2, m_running = True, m_paused = True, submitting = [],
        executed = [], owner = Wait_paused (ToReset 1 False)\<rparr> :: nat system)
   \<and> \<not> stale (\<lparr>m_tasks = [7, 8], m_threads = [Thread AtWhile], m_threadsCount = 1,
        m_tasksTotalCount = 2, m_running = True, m_paused = True, submitting = [],
        executed = [], owner = Wait_paused (ToReset 1 False)\<rparr> :: nat system)
   \<and> run 4 [Owner, Owner, Owner, Owner, Worker 0, Owner, Owner, Owner, Owner, Owner, Owner]
       (\<lparr>m_tasks = [7, 8], m_threads = [Thread AtWhile], m_threadsCount = 1,
        m_tasksTotalCount = 2, m_running = True, m_paused = True, submitting = [],
        executed = [], owner = Wait_paused (ToReset 1 False)\<rparr> :: nat system)
     = Inr (\<lparr>m_tasks = [7, 8], m_threads = [NotAThread], m_threadsCount = 1,
        m_tasksTotalCount = 2, m_running = True, m_paused = False, submitting = [],
        executed = [], owner = Create 0\<rparr> :: nat system)
   \<and> rebuilt (owner (\<lparr>m_tasks = [7, 8], m_threads = [NotAThread], m_threadsCount = 1,
        m_tasksTotalCount = 2, m_running = True, m_paused = False, submitting = [],
        executed = [], owner = Create 0\<rparr> :: nat system))
   \<and> prefix (m_tasks (\<lparr>m_tasks = [7, 8], m_threads = [Thread AtWhile], m_threadsCount = 1,
        m_tasksTotalCount = 2, m_running = True, m_paused = True, submitting = [],
        executed = [], owner = Wait_paused (ToReset 1 False)\<rparr> :: nat system))
       (m_tasks (\<lparr>m_tasks = [7, 8], m_threads = [NotAThread], m_threadsCount = 1,
        m_tasksTotalCount = 2, m_running = True, m_paused = False, submitting = [],
        executed = [], owner = Create 0\<rparr> :: nat system))
   \<and> m_tasks (\<lparr>m_tasks = [7, 8], m_threads = [NotAThread], m_threadsCount = 1,
        m_tasksTotalCount = 2, m_running = True, m_paused = False, submitting = [],
        executed = [], owner = Create 0\<rparr> :: nat system) = [7, 8]"
proof -
  let ?as1 = "[Owner, Owner] :: nat action list"
  let ?as2 = "[Owner, Owner, Owner, Owner, Worker 0, Owner, Owner, Owner, Owner, Owner, Owner]
      :: nat action list"
  let ?s = "(\<lparr>m_tasks = [7, 8], m_threads = [Thread AtWhile], m_threadsCount = 1,
        m_tasksTotalCount = 2, m_running = True, m_paused = False, submitting = [],
        executed = [], owner = Idle\<rparr> :: nat system)"
  let ?s1 = "(\<lparr>m_tasks = [7, 8], m_threads = [Thread AtWhile], m_threadsCount = 1,
        m_tasksTotalCount = 2, m_running = True, m_paused = True, submitting = [],
        executed = [], owner = Wait_paused (ToReset 1 False)\<rparr> :: nat system)"
  let ?s' = "(\<lparr>m_tasks = [7, 8], m_threads = [NotAThread], m_threadsCount = 1,
        m_tasksTotalCount = 2, m_running = True, m_paused = False, submitting = [],
        executed = [], owner = Create 0\<rparr> :: nat system)"
  have call: "run 4 (Call (Reset 1) # ?as1) ?s = Inr ?s1"
    by (simp add: exec_defs)
  have nc1: "list_all (\<lambda>a. \<not> is_call a) ?as1"
    by simp
  have pre: "reset_pre (owner ?s1)"
    by simp
  have past: "m_paused ?s \<or> \<not> before_wait (owner ?s1)"
    by simp
  have ns: "\<not> stale ?s1"
    by (simp add: stale_def)
  have r: "run 4 ?as2 ?s1 = Inr ?s'"
    by (simp add: exec_defs)
  have nc2: "list_all (\<lambda>a. \<not> is_call a) ?as2"
    by simp
  have rb: "rebuilt (owner ?s')"
    by simp
  note t = reset_keeps_queue [of 4 1 ?as1 ?s ?s1 ?as2 ?s']
  have p: "m_paused ?s1"
    using t [THEN conjunct1] call nc1 pre past by blast
  have k: "prefix (m_tasks ?s1) (m_tasks ?s')"
    using t [THEN conjunct2, THEN conjunct1] call nc1 pre past ns r nc2 rb by blast
  have q: "m_tasks ?s' = [7, 8]"
    by simp
  from call p ns r rb k q show ?thesis by blast
qed

lemma run_append:
  "run hc (xs @ ys) s = (case run hc xs s of Inl f \<Rightarrow> Inl f | Inr s1 \<Rightarrow> run hc ys s1)"
  by (induction xs arbitrary: s) (auto split: sum.splits)

lemma of_nat_zero_bounded:
  assumes "(of_nat m :: size_t) = 0" and "m < 2 ^ 64"
  shows "m = 0"
proof -
  have "unat (of_nat m :: size_t) = m"
    using assms(2) by (simp add: unat_of_nat)
  with assms(1) show ?thesis by simp
qed

lemma inflight_le_length: "inflight ts \<le> length ts"
  by (simp add: inflight_def)

lemma worker_step_length:
  "worker_step i s = Inr s' \<Longrightarrow> length (m_threads s') = length (m_threads s)"
  by (auto simp: worker_step_def set_thread_def
      split: if_splits thread.splits option.splits dest!: worker_frame)

lemma worker_step_paused:
  assumes "worker_step i s = Inr s'" and "m_paused s" and "\<not> stale s"
  shows "m_tasks s' = m_tasks s \<and> submitting s' = submitting s
     \<and> inflight (m_threads s') \<le> inflight (m_threads s)"
proof -
  from assms(1) obtain pc pc' s1 where i: "i < length (m_threads s)"
    and th: "m_threads s ! i = Thread pc"
    and w: "worker pc s = Some (pc', s1)"
    and s': "s' = set_thread i (Thread pc') s1"
    by (auto simp: worker_step_def split: if_splits thread.splits option.splits)
  from i th have mem: "Thread pc \<in> set (m_threads s)"
    by (metis nth_mem)
  with assms(3) have np: "pc \<noteq> AtPop"
    by (auto simp: stale_def)
  have upd: "inflight ((m_threads s)[i := t]) + (if busy (Thread pc) then 1 else 0) =
      inflight (m_threads s) + (if busy t then 1 else 0)" for t
    using inflight_update [OF i, of t] th by simp
  show ?thesis
  proof (cases pc)
    case AtWhile
    with w s' upd [of "Thread pc'"] show ?thesis
      by (auto simp: set_thread_def split: if_splits)
  next
    case AtPaused
    with w s' assms(2) upd [of "Thread pc'"] show ?thesis
      by (auto simp: set_thread_def split: if_splits)
  next
    case AtPop
    with np show ?thesis by simp
  next
    case (AtTask t)
    with w s' upd [of "Thread pc'"] show ?thesis
      by (auto simp: set_thread_def)
  next
    case AtDec
    with w s' upd [of "Thread pc'"] show ?thesis
      by (auto simp: set_thread_def)
  next
    case Exited
    with w show ?thesis by simp
  qed
qed

lemma sampled_mono:
  assumes "sampled s" and "owner s' = owner s" and "m_tasks s' = m_tasks s"
    and "length (m_threads s') = length (m_threads s)"
    and "inflight (m_threads s') \<le> inflight (m_threads s)"
  shows "sampled s'"
  unfolding sampled_def
proof (intro conjI allI impI)
  fix k tot
  assume "owner s' = Wait_queued k tot"
  with assms(2) have eq: "owner s = Wait_queued k tot"
    by simp
  from assms(1) [unfolded sampled_def] eq
  obtain m where "tot = of_nat (length (m_tasks s) + m)"
    and "inflight (m_threads s) \<le> m" and "m \<le> length (m_threads s)"
    by blast
  with assms(3,4,5)
  show "\<exists>m. tot = of_nat (length (m_tasks s') + m)
           \<and> inflight (m_threads s') \<le> m \<and> m \<le> length (m_threads s')"
    by (intro exI [of _ m]) simp
next
  fix k queued
  assume "owner s' = Wait_counter k queued"
  with assms(2) have eq: "owner s = Wait_counter k queued"
    by simp
  from assms(1) [unfolded sampled_def] eq have "queued = getTasksQueuedCount s"
    by blast
  with assms(3) show "queued = getTasksQueuedCount s'"
    by (simp add: getTasksQueuedCount_def)
qed

lemma worker_step_polling:
  assumes "polling s0 s" and "worker_step i s = Inr s'"
  shows "polling s0 s'"
proof (cases "wait_cont (owner s) \<noteq> None \<and> m_paused s0")
  case True
  with assms(1) have p: "m_paused s" and ns: "\<not> stale s" and acc: "accounted s"
    by (auto simp: polling_def)
  have fr: "frozen s s"
    using p ns by (rule frozen_refl)
  from worker_step_frozen [OF fr assms(2)] have ns': "\<not> stale s'"
    by (simp add: frozen_def)
  from assms(1) True have sm: "sampled s"
    by (simp add: polling_def)
  have "sampled s'"
    using sampled_mono [OF sm] worker_step_paused [OF assms(2) p ns]
      worker_step_flags [OF assms(2)] worker_step_length [OF assms(2)]
    by simp
  with worker_step_paused [OF assms(2) p ns] worker_step_flags [OF assms(2)]
    worker_step_length [OF assms(2)] worker_step_accounted [OF acc assms(2)] ns' assms(1) True
  show ?thesis
    by (auto simp: polling_def)
next
  case False
  with assms(1) worker_step_flags [OF assms(2)] show ?thesis
    by (auto simp: polling_def)
qed

lemma after_wait_left [simp]:
  "wait_cont (after_wait k) = None" "\<not> before_wait (after_wait k)"
  by (cases k; simp add: after_wait_def)+

lemma sampled_unsampled [simp]:
  "sampled (s\<lparr>owner := Wait_paused k\<rparr>)"
  "sampled (s\<lparr>owner := Wait_total k\<rparr>)"
  "sampled (s\<lparr>owner := Wait_running k\<rparr>)"
  "sampled (s\<lparr>owner := after_wait k\<rparr>)"
  by (simp_all add: sampled_def) (cases k; simp add: after_wait_def)+

lemma owner_step_polling:
  assumes "polling s0 s" and "owner_step hc s = Inr s'"
  shows "polling s0 s'"
proof (cases "wait_cont (owner s)")
  case None
  with assms show ?thesis
    by (cases "owner s")
       (auto simp: owner_step_def polling_def reset_count_def reset_vector_def
          split: sum.splits option.splits if_splits
          dest!: joinThreads_iter_flags createThreads_iter_flags)
next
  case (Some k)
  show ?thesis
  proof (cases "owner s")
    case (Wait_running k')
    with assms have s': "s' = s\<lparr>owner := Wait_queued k' (m_tasksTotalCount s)\<rparr>"
      by (simp add: owner_step_def)
    have "sampled s'" if "m_paused s0"
      unfolding sampled_def
    proof (intro conjI allI impI)
      fix k tot
      assume "owner s' = Wait_queued k tot"
      with s' have tot: "tot = m_tasksTotalCount s" by simp
      from assms(1) Wait_running that have "accounted s" and "submitting s = []"
        by (simp_all add: polling_def)
      with tot s'
      show "\<exists>m. tot = of_nat (length (m_tasks s') + m)
           \<and> inflight (m_threads s') \<le> m \<and> m \<le> length (m_threads s')"
        by (intro exI [of _ "inflight (m_threads s)"])
           (simp add: accounted_def inflight_le_length)
    next
      fix k queued
      assume "owner s' = Wait_counter k queued"
      with s' show "queued = getTasksQueuedCount s'" by simp
    qed
    with assms(1) Wait_running s' show ?thesis
      by (auto simp: polling_def accounted_def stale_def)
  qed (use assms Some in \<open>auto simp: owner_step_def polling_def accounted_def stale_def
         split: if_splits\<close>)
qed

lemma step_polling:
  assumes "polling s0 s" and "step hc a s = Inr s'" and "\<not> enters a"
  shows "polling s0 s'"
proof (cases a)
  case (Worker i)
  with assms show ?thesis by (simp add: step_def worker_step_polling)
next
  case (Submit_inc t)
  with assms(3) show ?thesis by simp
next
  case (Submit_push t)
  with assms(1,2) show ?thesis
    by (auto simp: step_def polling_def addTask_push_def split: if_splits)
next
  case Owner
  with assms show ?thesis by (simp add: step_def owner_step_polling)
next
  case Owner_queued_first
  with assms(1,2) show ?thesis
    by (cases "owner s")
       (auto simp: step_def owner_step_queued_first_def polling_def accounted_def stale_def
          sampled_def getTasksQueuedCount_def)
next
  case (Call c)
  with assms(3) show ?thesis by simp
qed

lemma run_polling:
  "polling s0 s \<Longrightarrow> run hc as s = Inr s' \<Longrightarrow> list_all (\<lambda>a. \<not> enters a) as \<Longrightarrow>
   polling s0 s'"
  by (induction as arbitrary: s) (auto split: sum.splits dest: step_polling)

lemma step_threads_bounded:
  assumes "threads_bounded s" and "step hc a s = Inr s'"
  shows "threads_bounded s'"
proof (cases a)
  case (Worker i)
  with assms worker_step_length [of i s s'] show ?thesis
    by (simp add: step_def threads_bounded_def)
next
  case Owner
  have "unat n < 2 ^ 64" for n :: size_t
    using unsigned_less [of n, where 'a = nat] by simp
  with Owner assms show ?thesis
    by (cases "owner s")
       (auto simp: step_def owner_step_def threads_bounded_def reset_count_def reset_vector_def
          split: sum.splits option.splits if_splits
          dest!: joinThreads_iter_frame createThreads_iter_frame)
next
  case (Call c)
  with assms show ?thesis
    by (cases "owner s"; cases c)
       (auto simp: step_def call_step_def threads_bounded_def setPaused_def)
qed (use assms in \<open>auto simp: step_def threads_bounded_def addTask_inc_def addTask_push_def
       owner_step_queued_first_def split: if_splits opc.splits\<close>)

lemma run_threads_bounded:
  "threads_bounded s \<Longrightarrow> run hc as s = Inr s' \<Longrightarrow> threads_bounded s'"
  by (induction as arbitrary: s) (auto split: sum.splits dest: step_threads_bounded)

lemma ThreadPool_threads_bounded: "threads_bounded (ThreadPool hc n)"
  using unsigned_less [of "if n \<noteq> 0 then n else hc", where 'a = nat]
  by (simp add: threads_bounded_def ThreadPool_def)

lemma polling_drained:
  assumes pol: "polling s0 s" and p: "m_paused s" and w: "wait_cont (owner s) = Some k"
    and tb: "length (m_threads s0) < 2 ^ 64"
    and ret: "(\<exists>tot. owner s = Wait_queued k tot \<and> runningCount tot (getTasksQueuedCount s) = 0)
        \<or> (\<exists>queued. owner s = Wait_counter k queued
              \<and> runningCount (m_tasksTotalCount s) queued = 0)"
  shows "getTasksRunningCount s = 0 \<and> inflight (m_threads s) = 0 \<and> \<not> stale s
     \<and> m_tasks s = m_tasks s0"
proof -
  from pol p w have acc: "accounted s" and ns: "\<not> stale s" and sub: "submitting s = []"
    and q: "m_tasks s = m_tasks s0" and len: "length (m_threads s) = length (m_threads s0)"
    and sm: "sampled s"
    by (auto simp: polling_def)
  have "inflight (m_threads s) = 0"
    using ret
  proof (elim disjE exE conjE)
    fix tot
    assume o: "owner s = Wait_queued k tot"
      and z: "runningCount tot (getTasksQueuedCount s) = 0"
    from sm [unfolded sampled_def] o obtain m where tot: "tot = of_nat (length (m_tasks s) + m)"
      and le: "inflight (m_threads s) \<le> m" and m: "m \<le> length (m_threads s)"
      by blast
    from z tot have "(of_nat m :: size_t) = 0"
      by (simp add: runningCount_def getTasksQueuedCount_def)
    moreover from m len tb have "m < 2 ^ 64" by simp
    ultimately have "m = 0" by (rule of_nat_zero_bounded)
    with le show ?thesis by simp
  next
    fix queued
    assume o: "owner s = Wait_counter k queued"
      and z: "runningCount (m_tasksTotalCount s) queued = 0"
    from sm [unfolded sampled_def] o have "queued = getTasksQueuedCount s"
      by blast
    with z acc sub have "(of_nat (inflight (m_threads s)) :: size_t) = 0"
      by (simp add: runningCount_def getTasksQueuedCount_def accounted_def)
    moreover from inflight_le_length [of "m_threads s"] len tb
    have "inflight (m_threads s) < 2 ^ 64" by simp
    ultimately show ?thesis by (rule of_nat_zero_bounded)
  qed
  with accounted_running [OF acc] sub ns q show ?thesis
    by simp
qed

text \<open>
  C2 (amended). \<^verbatim>\<open>waitForTasks\<close> is called in a state \<open>s0\<close> reached from construction
  and returns after any execution \<open>as\<close> (the action by which the owner leaves its loop).
  If \<^verbatim>\<open>m_paused\<close> is false at that point, the counter is 0. If \<^verbatim>\<open>m_paused\<close> is true
  at that point, and when the call began no worker was stale and no submission was
  between its increment and its push, and no submission entered during the call, then
  \<^verbatim>\<open>getTasksRunningCount\<close> is 0, no worker holds a task or is stale, and the queue is
  what it was when the call began.
\<close>

theorem waitForTasks_returns_quiescent:
  assumes "run hc as0 (ThreadPool hc n) = Inr s0"
    and "owner s0 = Wait_paused k"
    and "run hc as s0 = Inr s"
    and "wait_cont (owner s) = Some k'"
    and "step hc a s = Inr s'"
    and "wait_cont (owner s') = None"
  shows "(\<not> m_paused s' \<longrightarrow> getTasksTotalCount s' = 0)
       \<and> (m_paused s' \<and> \<not> stale s0 \<and> submitting s0 = [] \<and> list_all (\<lambda>a. \<not> enters a) as \<longrightarrow>
            getTasksRunningCount s' = 0 \<and> inflight (m_threads s') = 0 \<and> \<not> stale s'
            \<and> m_tasks s' = m_tasks s0)"
proof -
  have reach: "run hc (as0 @ as) (ThreadPool hc n) = Inr s"
    using assms(1,3) by (simp add: run_append)
  have b: "branch_agrees s"
    using run_branch_agrees [OF ThreadPool_branch_agrees reach] .
  note cases = wait_returns_cases [OF assms(4-6)]
  from cases have s': "s' = s\<lparr>owner := after_wait k'\<rparr>"
    by simp
  have 1: "\<not> m_paused s' \<longrightarrow> getTasksTotalCount s' = 0"
    using cases b by (auto simp: branch_agrees_def getTasksTotalCount_def)
  have 2: "getTasksRunningCount s' = 0 \<and> inflight (m_threads s') = 0 \<and> \<not> stale s'
            \<and> m_tasks s' = m_tasks s0"
    if p: "m_paused s'" and ns: "\<not> stale s0" and sub: "submitting s0 = []"
      and quiet: "list_all (\<lambda>a. \<not> enters a) as"
  proof -
    have acc0: "accounted s0"
      using run_accounted [OF ThreadPool_accounted assms(1)] .
    have tb: "length (m_threads s0) < 2 ^ 64"
      using run_threads_bounded [OF ThreadPool_threads_bounded assms(1)]
      by (simp add: threads_bounded_def)
    have "polling s0 s0"
      using assms(2) acc0 ns sub by (simp add: polling_def sampled_def)
    from run_polling [OF this assms(3) quiet] have pol: "polling s0 s" .
    from p s' have ps: "m_paused s" by simp
    from cases b ps
    have ret: "(\<exists>tot. owner s = Wait_queued k' tot
          \<and> runningCount tot (getTasksQueuedCount s) = 0)
        \<or> (\<exists>queued. owner s = Wait_counter k' queued
              \<and> runningCount (m_tasksTotalCount s) queued = 0)"
      by (auto simp: branch_agrees_def)
    from polling_drained [OF pol ps assms(4) tb ret] s' show ?thesis
      by (auto simp: getTasksRunningCount_def getTasksQueuedCount_def stale_def)
  qed
  from 1 2 show ?thesis by blast
qed

text \<open>
  C2 as stated fails in the paused branch, in either order of the two reads of
  \<^verbatim>\<open>getTasksRunningCount\<close>. Counter first: the poll reads the counter as 0, a client
  then executes the increment of \<^verbatim>\<open>addTask(7)\<close>, the poll reads the queue size 0 and
  \<^verbatim>\<open>waitForTasks\<close> returns; the pool is paused and \<^verbatim>\<open>getTasksRunningCount()\<close> is 1.
  Queue size first: a worker has read \<^verbatim>\<open>m_paused\<close> as false before
  \<^verbatim>\<open>setPaused(true)\<close>; the poll reads the queue size 1, the worker dequeues task 7,
  the poll reads the counter 1 and \<^verbatim>\<open>waitForTasks\<close> returns; the pool is paused and
  \<^verbatim>\<open>getTasksRunningCount()\<close> is 1.
\<close>

theorem waitForTasks_returns_counterexample:
  "run 4 [Owner, Owner, Call (SetPaused True), Call WaitForTasks, Owner, Owner, Submit_inc 7]
     (ThreadPool 4 1 :: nat system)
   = Inr \<lparr>m_tasks = [], m_threads = [Thread AtWhile], m_threadsCount = 1,
          m_tasksTotalCount = 1, m_running = True, m_paused = True, submitting = [7],
          executed = [], owner = Wait_queued ToUser 0\<rparr>
   \<and> step 4 Owner
       \<lparr>m_tasks = [], m_threads = [Thread AtWhile], m_threadsCount = 1,
        m_tasksTotalCount = 1, m_running = True, m_paused = True, submitting = [7 :: nat],
        executed = [], owner = Wait_queued ToUser 0\<rparr>
     = Inr \<lparr>m_tasks = [], m_threads = [Thread AtWhile], m_threadsCount = 1,
          m_tasksTotalCount = 1, m_running = True, m_paused = True, submitting = [7],
          executed = [], owner = Idle\<rparr>
   \<and> getTasksRunningCount
       (\<lparr>m_tasks = [], m_threads = [Thread AtWhile], m_threadsCount = 1,
        m_tasksTotalCount = 1, m_running = True, m_paused = True, submitting = [7],
        executed = [], owner = Idle\<rparr> :: nat system) = 1
   \<and> run 4 [Owner, Owner, Submit_inc 7, Submit_push 7, Worker 0, Worker 0,
            Call (SetPaused True), Call WaitForTasks, Owner, Owner_queued_first, Worker 0]
       (ThreadPool 4 1 :: nat system)
     = Inr \<lparr>m_tasks = [], m_threads = [Thread (AtTask 7)], m_threadsCount = 1,
          m_tasksTotalCount = 1, m_running = True, m_paused = True, submitting = [],
          executed = [], owner = Wait_counter ToUser 1\<rparr>
   \<and> step 4 Owner
       \<lparr>m_tasks = [], m_threads = [Thread (AtTask (7 :: nat))], m_threadsCount = 1,
        m_tasksTotalCount = 1, m_running = True, m_paused = True, submitting = [],
        executed = [], owner = Wait_counter ToUser 1\<rparr>
     = Inr \<lparr>m_tasks = [], m_threads = [Thread (AtTask 7)], m_threadsCount = 1,
          m_tasksTotalCount = 1, m_running = True, m_paused = True, submitting = [],
          executed = [], owner = Idle\<rparr>
   \<and> getTasksRunningCount
       (\<lparr>m_tasks = [], m_threads = [Thread (AtTask (7 :: nat))], m_threadsCount = 1,
        m_tasksTotalCount = 1, m_running = True, m_paused = True, submitting = [],
        executed = [], owner = Idle\<rparr> :: nat system) = 1"
  by (simp add: exec_defs)

text \<open>
  An instance of C2 (amended), through the paused branch: the pool is paused with task 7
  queued while a worker executes task 8. The first poll samples the queue size 1 and
  then the counter 2 and goes on; the worker finishes task 8; the second poll samples
  the counter 1 and the queue size 1 and \<^verbatim>\<open>waitForTasks\<close> returns, with running count
  0 and task 7 still queued.
\<close>

theorem waitForTasks_returns_quiescent_witness:
  "run 4 [Owner, Owner, Submit_inc 8, Submit_push 8, Worker 0, Worker 0, Worker 0,
          Call (SetPaused True), Submit_inc 7, Submit_push 7, Call WaitForTasks]
     (ThreadPool 4 1 :: nat system)
   = Inr (\<lparr>m_tasks = [7], m_threads = [Thread (AtTask 8)], m_threadsCount = 1,
        m_tasksTotalCount = 2, m_running = True, m_paused = True, submitting = [],
        executed = [], owner = Wait_paused ToUser\<rparr> :: nat system)
   \<and> run 4 [Owner, Owner_queued_first, Owner, Worker 0, Worker 0, Owner, Owner]
       (\<lparr>m_tasks = [7], m_threads = [Thread (AtTask 8)], m_threadsCount = 1,
        m_tasksTotalCount = 2, m_running = True, m_paused = True, submitting = [],
        executed = [], owner = Wait_paused ToUser\<rparr> :: nat system)
     = Inr (\<lparr>m_tasks = [7], m_threads = [Thread AtWhile], m_threadsCount = 1,
        m_tasksTotalCount = 1, m_running = True, m_paused = True, submitting = [],
        executed = [8], owner = Wait_queued ToUser 1\<rparr> :: nat system)
   \<and> step 4 Owner (\<lparr>m_tasks = [7], m_threads = [Thread AtWhile], m_threadsCount = 1,
        m_tasksTotalCount = 1, m_running = True, m_paused = True, submitting = [],
        executed = [8], owner = Wait_queued ToUser 1\<rparr> :: nat system)
     = Inr (\<lparr>m_tasks = [7], m_threads = [Thread AtWhile], m_threadsCount = 1,
        m_tasksTotalCount = 1, m_running = True, m_paused = True, submitting = [],
        executed = [8], owner = Idle\<rparr> :: nat system)
   \<and> m_paused (\<lparr>m_tasks = [7], m_threads = [Thread AtWhile], m_threadsCount = 1,
        m_tasksTotalCount = 1, m_running = True, m_paused = True, submitting = [],
        executed = [8], owner = Idle\<rparr> :: nat system)
   \<and> getTasksRunningCount (\<lparr>m_tasks = [7], m_threads = [Thread AtWhile], m_threadsCount = 1,
        m_tasksTotalCount = 1, m_running = True, m_paused = True, submitting = [],
        executed = [8], owner = Idle\<rparr> :: nat system) = 0
   \<and> m_tasks (\<lparr>m_tasks = [7], m_threads = [Thread AtWhile], m_threadsCount = 1,
        m_tasksTotalCount = 1, m_running = True, m_paused = True, submitting = [],
        executed = [8], owner = Idle\<rparr> :: nat system) = [7]"
proof -
  let ?before = "[Owner, Owner, Submit_inc 8, Submit_push 8, Worker 0, Worker 0, Worker 0,
          Call (SetPaused True), Submit_inc 7, Submit_push 7, Call WaitForTasks]
      :: nat action list"
  let ?as = "[Owner, Owner_queued_first, Owner, Worker 0, Worker 0, Owner, Owner]
      :: nat action list"
  let ?init = "(\<lparr>m_tasks = [7], m_threads = [Thread (AtTask 8)], m_threadsCount = 1,
        m_tasksTotalCount = 2, m_running = True, m_paused = True, submitting = [],
        executed = [], owner = Wait_paused ToUser\<rparr> :: nat system)"
  let ?s = "(\<lparr>m_tasks = [7], m_threads = [Thread AtWhile], m_threadsCount = 1,
        m_tasksTotalCount = 1, m_running = True, m_paused = True, submitting = [],
        executed = [8], owner = Wait_queued ToUser 1\<rparr> :: nat system)"
  let ?s' = "(\<lparr>m_tasks = [7], m_threads = [Thread AtWhile], m_threadsCount = 1,
        m_tasksTotalCount = 1, m_running = True, m_paused = True, submitting = [],
        executed = [8], owner = Idle\<rparr> :: nat system)"
  have reach: "run 4 ?before (ThreadPool 4 1) = Inr ?init"
    by (simp add: exec_defs)
  have start: "owner ?init = Wait_paused ToUser"
    by simp
  have r: "run 4 ?as ?init = Inr ?s"
    by (simp add: exec_defs)
  have w: "wait_cont (owner ?s) = Some ToUser"
    by simp
  have st: "step 4 Owner ?s = Inr ?s'"
    by (simp add: exec_defs)
  have w': "wait_cont (owner ?s') = None"
    by simp
  have p: "m_paused ?s'"
    by simp
  have ns: "\<not> stale ?init"
    by (simp add: stale_def)
  have sub: "submitting ?init = []"
    by simp
  have quiet: "list_all (\<lambda>a. \<not> enters a) ?as"
    by simp
  have "getTasksRunningCount ?s' = 0 \<and> m_tasks ?s' = m_tasks ?init"
    using waitForTasks_returns_quiescent [OF reach start r w st w', THEN conjunct2]
      p ns sub quiet
    by blast
  then have "getTasksRunningCount ?s' = 0 \<and> m_tasks ?s' = [7]"
    by simp
  with reach r st p show ?thesis by blast
qed

end
